theory Spec2Isabelle
  imports Main "HOL-Library.Log_Nat"
begin

section \<open>Strings\<close>

text \<open>
  A Go string is a sequence of bytes, modelled as \<open>string\<close> (a list of 8-bit characters).
  A Go \<open>map[string]string\<close> is a partial map; reading a key that is absent yields the
  empty string (the zero value), which \<open>lookup\<close> writes out.
\<close>

type_synonym vars = "string \<rightharpoonup> string"

definition lookup :: "vars \<Rightarrow> string \<Rightarrow> string" where
  "lookup m k = (case m k of None \<Rightarrow> [] | Some v \<Rightarrow> v)"

subsection \<open>strings.Fields, strings.Join, strings.ReplaceAll\<close>

text \<open>
  \<open>strings.Fields\<close> splits around runs of white space as defined by \<open>unicode.IsSpace\<close>:
  the six ASCII characters tab, newline, vertical tab, form feed, carriage return and space,
  and the code points U+0085, U+00A0, U+1680, U+2000 to U+200A, U+2028, U+2029, U+202F,
  U+205F and U+3000. On the UTF-8 bytes of the string, \<open>spaceWidth\<close> gives the number of
  bytes of the white space rune a string starts with, and 0 when it starts with none.
  Every such encoding begins with an ASCII byte or a lead byte, which is never inside
  another valid rune, so scanning byte by byte finds the same runes as decoding does.
\<close>

definition asciiSpace :: "char \<Rightarrow> bool" where
  "asciiSpace c \<longleftrightarrow> c = CHR 0x09 \<or> c = CHR 0x0A \<or> c = CHR 0x0B \<or> c = CHR 0x0C
     \<or> c = CHR 0x0D \<or> c = CHR 0x20"

fun spaceWidth :: "string \<Rightarrow> nat" where
  "spaceWidth [] = 0"
| "spaceWidth (c # cs) =
     (if asciiSpace c then 1
      else if c = CHR 0xC2 then
        (case cs of
           d # _ \<Rightarrow> if d = CHR 0x85 \<or> d = CHR 0xA0 then 2 else 0
         | [] \<Rightarrow> 0)
      else if c = CHR 0xE1 then
        (case cs of
           d # e # _ \<Rightarrow> if d = CHR 0x9A \<and> e = CHR 0x80 then 3 else 0
         | _ \<Rightarrow> 0)
      else if c = CHR 0xE2 then
        (case cs of
           d # e # _ \<Rightarrow>
             if d = CHR 0x80 \<and> (of_char e \<in> {0x80 .. (0x8A::nat)} \<or> e = CHR 0xA8
                  \<or> e = CHR 0xA9 \<or> e = CHR 0xAF) then 3
             else if d = CHR 0x81 \<and> e = CHR 0x9F then 3
             else 0
         | _ \<Rightarrow> 0)
      else if c = CHR 0xE3 then
        (case cs of
           d # e # _ \<Rightarrow> if d = CHR 0x80 \<and> e = CHR 0x80 then 3 else 0
         | _ \<Rightarrow> 0)
      else 0)"

text \<open>
  The scan of \<open>strings.Fields\<close>: \<open>cur\<close> is the field being read (empty between
  fields); a white space rune closes it, any other byte extends it.
\<close>

function fields_scan :: "string \<Rightarrow> string \<Rightarrow> string list" where
  "fields_scan cur [] = (if cur = [] then [] else [cur])"
| "fields_scan cur (c # cs) =
     (if spaceWidth (c # cs) = 0 then fields_scan (cur @ [c]) cs
      else (if cur = [] then [] else [cur])
           @ fields_scan [] (drop (spaceWidth (c # cs)) (c # cs)))"
  by pat_completeness auto
termination
  by (relation "measure (\<lambda>(cur, s). length s)") auto

definition strings_Fields :: "string \<Rightarrow> string list" where
  "strings_Fields s = fields_scan [] s"

fun strings_Join :: "string list \<Rightarrow> string \<Rightarrow> string" where
  "strings_Join [] sep = []"
| "strings_Join [x] sep = x"
| "strings_Join (x # y # xs) sep = x @ sep @ strings_Join (y # xs) sep"

text \<open>\<open>strings.ReplaceAll(s, ".", "/")\<close>: the pattern is a single byte.\<close>

definition replaceAll_char :: "string \<Rightarrow> char \<Rightarrow> char \<Rightarrow> string" where
  "replaceAll_char s old new = map (\<lambda>c. if c = old then new else c) s"

section \<open>Errors\<close>

text \<open>
  A Go \<open>error\<close> value. \<open>External\<close> is an error made outside the program (by the NUT
  client library, the MQTT client, \<open>strconv\<close>); \<open>Canceled\<close> is \<open>context.Canceled\<close>;
  \<open>UnsupportedValue\<close> is the error of \<open>json.Marshal\<close> on a NaN or an infinity. The other
  constructors are the \<open>fmt.Errorf\<close> calls of the program, each with the values it
  formats and the error it wraps. \<open>Panic\<close> stands for a run-time panic (a method call
  through a nil \<open>conn\<close>, an index out of range).
\<close>

datatype error =
    External string
  | Canceled
  | UnsupportedValue
  | ConnectingToNUT string int error
  | AuthenticatingWithNUT error
  | ListingUPS error
  | UPSNotFound string
  | GettingVariables string error
  | PollingNUT error
  | Publishing error
  | MarshallingState error
  | Panic string

section \<open>float64\<close>

text \<open>
  A \<open>float64\<close> is an IEEE 754 binary64 value: a NaN, an infinity with its sign, or a
  finite value given by its sign (\<open>True\<close> for negative) and its magnitude, a rational
  number; zero has a sign. Every arithmetic operation computes the exact result and rounds
  it to the nearest representable value, ties to the even significand (\<open>rnd64\<close>).
\<close>

datatype float64 = NaN | Inf bool | Fin bool rat

definition ipow :: "nat \<Rightarrow> int \<Rightarrow> rat" where
  "ipow b e = (if 0 \<le> e then of_nat b ^ nat e else 1 / of_nat b ^ nat (- e))"

text \<open>\<open>ilog b q\<close> is the exponent \<open>e\<close> with \<open>b^e \<le> q < b^(e+1)\<close>, for \<open>q > 0\<close>.\<close>

definition ilog :: "nat \<Rightarrow> rat \<Rightarrow> int" where
  "ilog b q =
     (let (n, d) = quotient_of q;
          k = int (floorlog b (nat n)) - int (floorlog b (nat d))
      in if ipow b k \<le> q then k else k - 1)"

definition round_half_even :: "rat \<Rightarrow> int" where
  "round_half_even q =
     (let f = \<lfloor>q\<rfloor>; r = q - of_int f
      in if r < 1 / 2 then f else if 1 / 2 < r then f + 1
         else if even f then f else f + 1)"

text \<open>
  Rounding a magnitude \<open>q \<ge> 0\<close> with sign \<open>s\<close>: the unit in the last place is
  \<open>2^(e - 52)\<close> for a normal value of exponent \<open>e\<close> and \<open>2^(-1074)\<close> for a subnormal one;
  a rounded magnitude of \<open>2^1024\<close> or more overflows to the infinity.
\<close>

definition rnd64 :: "bool \<Rightarrow> rat \<Rightarrow> float64" where
  "rnd64 s q =
     (if q = 0 then Fin s 0
      else let u = max (ilog 2 q - 52) (- 1074);
               r = of_int (round_half_even (q / ipow 2 u)) * ipow 2 u
           in if ipow 2 1024 \<le> r then Inf s else Fin s r)"

definition signed :: "bool \<Rightarrow> rat \<Rightarrow> rat" where
  "signed s q = (if s then - q else q)"

fun fneg :: "float64 \<Rightarrow> float64" where
  "fneg NaN = NaN"
| "fneg (Inf s) = Inf (\<not> s)"
| "fneg (Fin s q) = Fin (\<not> s) q"

fun fadd :: "float64 \<Rightarrow> float64 \<Rightarrow> float64" where
  "fadd NaN y = NaN"
| "fadd x NaN = NaN"
| "fadd (Inf s) (Inf t) = (if s = t then Inf s else NaN)"
| "fadd (Inf s) (Fin t q) = Inf s"
| "fadd (Fin s q) (Inf t) = Inf t"
| "fadd (Fin s p) (Fin t q) =
     (let v = signed s p + signed t q
      in if v = 0 then Fin (s \<and> t) 0 else rnd64 (v < 0) \<bar>v\<bar>)"

definition fsub :: "float64 \<Rightarrow> float64 \<Rightarrow> float64" where
  "fsub x y = fadd x (fneg y)"

fun fmul :: "float64 \<Rightarrow> float64 \<Rightarrow> float64" where
  "fmul NaN y = NaN"
| "fmul x NaN = NaN"
| "fmul (Inf s) (Inf t) = Inf (s \<noteq> t)"
| "fmul (Inf s) (Fin t q) = (if q = 0 then NaN else Inf (s \<noteq> t))"
| "fmul (Fin s q) (Inf t) = (if q = 0 then NaN else Inf (s \<noteq> t))"
| "fmul (Fin s p) (Fin t q) = rnd64 (s \<noteq> t) (p * q)"

fun fdiv :: "float64 \<Rightarrow> float64 \<Rightarrow> float64" where
  "fdiv NaN y = NaN"
| "fdiv x NaN = NaN"
| "fdiv (Inf s) (Inf t) = NaN"
| "fdiv (Inf s) (Fin t q) = Inf (s \<noteq> t)"
| "fdiv (Fin s q) (Inf t) = Fin (s \<noteq> t) 0"
| "fdiv (Fin s p) (Fin t q) =
     (if q = 0 then (if p = 0 then NaN else Inf (s \<noteq> t))
      else rnd64 (s \<noteq> t) (p / q))"

text \<open>Go's \<open>==\<close> on floats: a NaN equals nothing, the two zeros are equal.\<close>

fun feq :: "float64 \<Rightarrow> float64 \<Rightarrow> bool" where
  "feq (Fin s p) (Fin t q) = (signed s p = signed t q)"
| "feq (Inf s) (Inf t) = (s = t)"
| "feq x y = False"

text \<open>
  \<open>math.Round\<close>: the nearest integer, halves away from zero; zeros, infinities and NaN
  are returned as they are, the sign is kept.
\<close>

fun math_Round :: "float64 \<Rightarrow> float64" where
  "math_Round NaN = NaN"
| "math_Round (Inf s) = Inf s"
| "math_Round (Fin s q) = Fin s (of_int \<lfloor>q + 1 / 2\<rfloor>)"

text \<open>An integer constant of the source, converted to \<open>float64\<close>.\<close>

definition f64 :: "int \<Rightarrow> float64" where
  "f64 n = rnd64 (n < 0) (of_int \<bar>n\<bar>)"

subsection \<open>strconv.FormatFloat(v, 'f', -1, 64)\<close>

text \<open>
  Format \<open>'f'\<close> writes the digits without an exponent; precision \<open>-1\<close> asks for the least
  number of significant digits such that reading the text back gives the same value.
  \<open>shortest_try q n\<close> looks at the two decimals with \<open>n\<close> significant digits around the
  magnitude \<open>q\<close>, as a pair of the digits (an integer) and the power of ten they are
  scaled by, and keeps one that rounds back to \<open>q\<close>, the nearer one when both do.
\<close>

definition shortest_try :: "rat \<Rightarrow> nat \<Rightarrow> (int \<times> int) option" where
  "shortest_try q n =
     (let x = ilog 10 q - int n + 1;
          lo = \<lfloor>q / ipow 10 x\<rfloor>;
          hi = lo + 1;
          ok_lo = (rnd64 False (of_int lo * ipow 10 x) = Fin False q);
          ok_hi = (rnd64 False (of_int hi * ipow 10 x) = Fin False q)
      in if ok_lo \<and> ok_hi then Some (round_half_even (q / ipow 10 x), x)
         else if ok_lo then Some (lo, x)
         else if ok_hi then Some (hi, x)
         else None)"

text \<open>
  The search for the least number of digits, from \<open>n\<close> upwards, for at most \<open>fuel\<close> steps.
\<close>

fun shortest_from :: "rat \<Rightarrow> nat \<Rightarrow> nat \<Rightarrow> int \<times> int" where
  "shortest_from q n 0 =
     (let x = ilog 10 q - int n + 1 in (round_half_even (q / ipow 10 x), x))"
| "shortest_from q n (Suc fuel) =
     (case shortest_try q n of
        Some r \<Rightarrow> r
      | None \<Rightarrow> shortest_from q (Suc n) fuel)"

text \<open>Trailing zeros of the digits move into the power of ten.\<close>

function strip_zeros :: "int \<Rightarrow> int \<Rightarrow> int \<times> int" where
  "strip_zeros d x =
     (if 0 < d \<and> d mod 10 = 0 then strip_zeros (d div 10) (x + 1) else (d, x))"
  by pat_completeness auto
termination
  by (relation "measure (\<lambda>(d, x). nat d)") auto

declare strip_zeros.simps [simp del]

text \<open>
  The search starts with one digit and goes on to the digits scaled by \<open>10^(-1074)\<close>: every
  binary64 value is a whole number of units \<open>2^(-1074)\<close>, so that these digits write it exactly.
\<close>

definition shortest :: "rat \<Rightarrow> int \<times> int" where
  "shortest q =
     (case shortest_from q 1 (nat (ilog 10 q + 1075)) of (d, x) \<Rightarrow> strip_zeros d x)"

text \<open>The character of a decimal digit \<open>d < 10\<close>.\<close>

definition digit_char :: "nat \<Rightarrow> char" where
  "digit_char d = ''0123456789'' ! d"

function digits10 :: "nat \<Rightarrow> string" where
  "digits10 n = (if n < 10 then [digit_char n] else digits10 (n div 10) @ [digit_char (n mod 10)])"
  by pat_completeness auto
termination
  by (relation "measure id") auto

declare digits10.simps [simp del]

text \<open>
  The digits \<open>d\<close> scaled by \<open>10^x\<close>, written in positional notation: a decimal point
  only when there are digits after it.
\<close>

definition fmt_f :: "int \<times> int \<Rightarrow> string" where
  "fmt_f dx =
     (case dx of (d, x) \<Rightarrow>
        let ds = digits10 (nat d) in
        if 0 \<le> x then ds @ replicate (nat x) CHR ''0''
        else let k = nat (- x) in
          if k < length ds
          then take (length ds - k) ds @ ''.'' @ drop (length ds - k) ds
          else ''0.'' @ replicate (k - length ds) CHR ''0'' @ ds)"

fun FormatFloat_f_shortest :: "float64 \<Rightarrow> string" where
  "FormatFloat_f_shortest NaN = ''NaN''"
| "FormatFloat_f_shortest (Inf s) = (if s then ''-Inf'' else ''+Inf'')"
| "FormatFloat_f_shortest (Fin s q) =
     (if s then ''-'' else [])
     @ (if q = 0 then ''0'' else fmt_f (shortest q))"

section \<open>Status decoding (package metrics)\<close>

definition statusTokens_table :: "(string \<times> string) list" where
  "statusTokens_table =
    [(''OL'', ''Online''),
     (''OB'', ''On Battery''),
     (''LB'', ''Low Battery''),
     (''HB'', ''High Battery''),
     (''RB'', ''Replace Battery''),
     (''CHRG'', ''Charging''),
     (''DISCHRG'', ''Discharging''),
     (''BYPASS'', ''Bypass''),
     (''CAL'', ''Calibrating''),
     (''OFF'', ''Offline''),
     (''OVER'', ''Overloaded''),
     (''TRIM'', ''Trimming''),
     (''BOOST'', ''Boosting''),
     (''FSD'', ''Forced Shutdown'')]"

definition statusTokens :: "string \<rightharpoonup> string" where
  "statusTokens = map_of statusTokens_table"

text \<open>The loop of \<open>computeStatusDisplay\<close>, appending to \<open>decoded\<close>.\<close>

fun decode_loop :: "string list \<Rightarrow> string list \<Rightarrow> string list" where
  "decode_loop decoded [] = decoded"
| "decode_loop decoded (t # ts) =
     (case statusTokens t of
        Some name \<Rightarrow> decode_loop (decoded @ [name]) ts
      | None \<Rightarrow> decode_loop (decoded @ [t]) ts)"

definition computeStatusDisplay :: "vars \<Rightarrow> string" where
  "computeStatusDisplay vs =
     (let status = lookup vs ''ups.status'' in
      if status = [] then []
      else strings_Join (decode_loop [] (strings_Fields status)) '', '')"

fun hasStatusToken_loop :: "string list \<Rightarrow> string \<Rightarrow> bool" where
  "hasStatusToken_loop [] token = False"
| "hasStatusToken_loop (t # ts) token = (if t = token then True else hasStatusToken_loop ts token)"

definition hasStatusToken :: "string \<Rightarrow> string \<Rightarrow> bool" where
  "hasStatusToken status token = hasStatusToken_loop (strings_Fields status) token"

section \<open>Derived metrics (package metrics)\<close>

record Metrics =
  LoadWatts :: float64
  BatteryRuntimeMins :: float64
  BatteryRuntimeHours :: float64
  OnBattery :: bool
  LowBattery :: bool
  StatusDisplay :: string
  InputVoltageDeviationPct :: float64

text \<open>
  \<open>strconv.ParseFloat(s, 64)\<close> is a parameter \<open>PF\<close> of the model: it returns the value
  read, or an error when the text is not a number or is out of the range of \<open>float64\<close>.
\<close>

type_synonym parser = "string \<Rightarrow> error + float64"

definition parseFloat :: "parser \<Rightarrow> string \<Rightarrow> float64 \<times> bool" where
  "parseFloat PF s =
     (if s = [] then (f64 0, False)
      else case PF s of
             Inl err \<Rightarrow> (f64 0, False)
           | Inr v \<Rightarrow> (v, True))"

definition computeLoadWatts :: "parser \<Rightarrow> vars \<Rightarrow> float64" where
  "computeLoadWatts PF vs =
     (case parseFloat PF (lookup vs ''ups.load'') of (load, ok) \<Rightarrow>
        if \<not> ok then f64 0
        else case parseFloat PF (lookup vs ''ups.realpower.nominal'') of (nominal, ok) \<Rightarrow>
          if \<not> ok then f64 0
          else fdiv (math_Round (fmul (fmul (fdiv load (f64 100)) nominal) (f64 100))) (f64 100))"

definition computeBatteryRuntimeMins :: "parser \<Rightarrow> vars \<Rightarrow> float64" where
  "computeBatteryRuntimeMins PF vs =
     (case parseFloat PF (lookup vs ''battery.runtime'') of (runtime, ok) \<Rightarrow>
        if \<not> ok then f64 0
        else fdiv (math_Round (fmul (fdiv runtime (f64 60)) (f64 100))) (f64 100))"

definition computeBatteryRuntimeHours :: "parser \<Rightarrow> vars \<Rightarrow> float64" where
  "computeBatteryRuntimeHours PF vs =
     (case parseFloat PF (lookup vs ''battery.runtime'') of (runtime, ok) \<Rightarrow>
        if \<not> ok then f64 0
        else fdiv (math_Round (fmul (fdiv runtime (f64 3600)) (f64 100))) (f64 100))"

definition computeInputVoltageDeviationPct :: "parser \<Rightarrow> vars \<Rightarrow> float64" where
  "computeInputVoltageDeviationPct PF vs =
     (case parseFloat PF (lookup vs ''input.voltage'') of (voltage, ok) \<Rightarrow>
        if \<not> ok then f64 0
        else case parseFloat PF (lookup vs ''input.voltage.nominal'') of (nominal, ok) \<Rightarrow>
          if \<not> ok \<or> feq nominal (f64 0) then f64 0
          else fdiv (math_Round
                 (fmul (fmul (fdiv (fsub voltage nominal) nominal) (f64 100)) (f64 100)))
                 (f64 100))"

definition Compute :: "parser \<Rightarrow> vars \<Rightarrow> Metrics" where
  "Compute PF vs =
     \<lparr> LoadWatts = computeLoadWatts PF vs,
       BatteryRuntimeMins = computeBatteryRuntimeMins PF vs,
       BatteryRuntimeHours = computeBatteryRuntimeHours PF vs,
       OnBattery = hasStatusToken (lookup vs ''ups.status'') ''OB'',
       LowBattery = hasStatusToken (lookup vs ''ups.status'') ''LB'',
       StatusDisplay = computeStatusDisplay vs,
       InputVoltageDeviationPct = computeInputVoltageDeviationPct PF vs \<rparr>"

definition formatFloat :: "float64 \<Rightarrow> string" where
  "formatFloat v = FormatFloat_f_shortest v"

definition FormatBool :: "bool \<Rightarrow> string" where
  "FormatBool b = (if b then ''true'' else ''false'')"

definition AsTopicMap :: "Metrics \<Rightarrow> vars" where
  "AsTopicMap m =
     [''load_watts'' \<mapsto> formatFloat (LoadWatts m),
      ''battery_runtime_mins'' \<mapsto> formatFloat (BatteryRuntimeMins m),
      ''battery_runtime_hours'' \<mapsto> formatFloat (BatteryRuntimeHours m),
      ''on_battery'' \<mapsto> FormatBool (OnBattery m),
      ''low_battery'' \<mapsto> FormatBool (LowBattery m),
      ''status_display'' \<mapsto> StatusDisplay m,
      ''input_voltage_deviation_pct'' \<mapsto> formatFloat (InputVoltageDeviationPct m)]"

section \<open>The NUT client (package nut)\<close>

record Variable =
  Name :: string
  Value :: string

fun VarsToMap_loop :: "vars \<Rightarrow> Variable list \<Rightarrow> vars" where
  "VarsToMap_loop m [] = m"
| "VarsToMap_loop m (v # rest) = VarsToMap_loop (m(Name v \<mapsto> Value v)) rest"

definition VarsToMap :: "Variable list \<Rightarrow> vars" where
  "VarsToMap vs = VarsToMap_loop Map.empty vs"

text \<open>
  The library \<open>go.nut\<close> talks to the network. Its calls are parameters of the model:
  functions of the state \<open>'w\<close> of the world outside, returning a result and the next
  state. \<open>'c\<close> is a session of the library, \<open>'v\<close> the value of a variable as the library
  returns it, and \<open>Sprint\<close> is \<open>fmt.Sprintf("%v", _)\<close> on such a value.
\<close>

record 'c gonut_UPS =
  ups_Name :: string
  ups_client :: 'c

record 'v gonut_Variable =
  nv_Name :: string
  nv_Value :: 'v

record ('w, 'c, 'v) gonut =
  Connect :: "string \<Rightarrow> int \<Rightarrow> 'w \<Rightarrow> (error + 'c) \<times> 'w"
  Authenticate :: "'c \<Rightarrow> string \<Rightarrow> string \<Rightarrow> 'w \<Rightarrow> error option \<times> 'w"
  Disconnect :: "'c \<Rightarrow> 'w \<Rightarrow> error option \<times> 'w"
  GetUPSList :: "'c \<Rightarrow> 'w \<Rightarrow> (error + 'c gonut_UPS list) \<times> 'w"
  GetVariables :: "'c gonut_UPS \<Rightarrow> 'w \<Rightarrow> (error + 'v gonut_Variable list) \<times> 'w"
  Sprint :: "'v \<Rightarrow> string"

text \<open>
  What can be observed of the client from outside is the sequence of library calls it
  makes. The network carries the state of the world and the calls made so far.
\<close>

datatype nut_call = Call_Connect | Call_Authenticate | Call_Disconnect
  | Call_GetUPSList | Call_GetVariables

record 'w network =
  outside :: 'w
  calls :: "nut_call list"

definition call_Connect ::
  "('w, 'c, 'v) gonut \<Rightarrow> string \<Rightarrow> int \<Rightarrow> 'w network \<Rightarrow> (error + 'c) \<times> 'w network" where
  "call_Connect lib h p n =
     (case Connect lib h p (outside n) of
        (r, w) \<Rightarrow> (r, \<lparr> outside = w, calls = calls n @ [Call_Connect] \<rparr>))"

definition call_Authenticate ::
  "('w, 'c, 'v) gonut \<Rightarrow> 'c \<Rightarrow> string \<Rightarrow> string \<Rightarrow> 'w network \<Rightarrow> error option \<times> 'w network" where
  "call_Authenticate lib cn u p n =
     (case Authenticate lib cn u p (outside n) of
        (r, w) \<Rightarrow> (r, \<lparr> outside = w, calls = calls n @ [Call_Authenticate] \<rparr>))"

definition call_Disconnect ::
  "('w, 'c, 'v) gonut \<Rightarrow> 'c \<Rightarrow> 'w network \<Rightarrow> error option \<times> 'w network" where
  "call_Disconnect lib cn n =
     (case Disconnect lib cn (outside n) of
        (r, w) \<Rightarrow> (r, \<lparr> outside = w, calls = calls n @ [Call_Disconnect] \<rparr>))"

definition call_GetUPSList ::
  "('w, 'c, 'v) gonut \<Rightarrow> 'c \<Rightarrow> 'w network \<Rightarrow> (error + 'c gonut_UPS list) \<times> 'w network" where
  "call_GetUPSList lib cn n =
     (case GetUPSList lib cn (outside n) of
        (r, w) \<Rightarrow> (r, \<lparr> outside = w, calls = calls n @ [Call_GetUPSList] \<rparr>))"

definition call_GetVariables ::
  "('w, 'c, 'v) gonut \<Rightarrow> 'c gonut_UPS \<Rightarrow> 'w network
     \<Rightarrow> (error + 'v gonut_Variable list) \<times> 'w network" where
  "call_GetVariables lib u n =
     (case GetVariables lib u (outside n) of
        (r, w) \<Rightarrow> (r, \<lparr> outside = w, calls = calls n @ [Call_GetVariables] \<rparr>))"

record 'c Client =
  host :: string
  port :: int
  username :: string
  password :: string
  upsName :: string
  conn :: "'c option"
  stale :: bool

definition connect ::
  "('w, 'c, 'v) gonut \<Rightarrow> 'c Client \<Rightarrow> 'w network \<Rightarrow> error option \<times> 'c Client \<times> 'w network" where
  "connect lib c n =
     (case call_Connect lib (host c) (port c) n of
        (Inl err, n1) \<Rightarrow> (Some (ConnectingToNUT (host c) (port c) err), c, n1)
      | (Inr cn, n1) \<Rightarrow>
          if username c \<noteq> [] then
            (case call_Authenticate lib cn (username c) (password c) n1 of
               (Some err, n2) \<Rightarrow>
                 (case call_Disconnect lib cn n2 of
                    (_, n3) \<Rightarrow> (Some (AuthenticatingWithNUT err), c, n3))
             | (None, n2) \<Rightarrow> (None, c\<lparr> conn := Some cn, stale := False \<rparr>, n2))
          else (None, c\<lparr> conn := Some cn, stale := False \<rparr>, n1))"

definition NewClient ::
  "('w, 'c, 'v) gonut \<Rightarrow> string \<Rightarrow> int \<Rightarrow> string \<Rightarrow> string \<Rightarrow> string \<Rightarrow> 'w network
     \<Rightarrow> (error + 'c Client) \<times> 'w network" where
  "NewClient lib h p u pw ups n =
     (let c = \<lparr> host = h, port = p, username = u, password = pw, upsName = ups,
                conn = None, stale = False \<rparr>
      in case connect lib c n of
           (Some err, c1, n1) \<Rightarrow> (Inl err, n1)
         | (None, c1, n1) \<Rightarrow> (Inr c1, n1))"

text \<open>The search for the configured UPS: the first entry of the list with that name.\<close>

fun find_target :: "string \<Rightarrow> 'c gonut_UPS list \<Rightarrow> 'c gonut_UPS option" where
  "find_target name [] = None"
| "find_target name (u # us) = (if ups_Name u = name then Some u else find_target name us)"

definition to_Variable :: "('w, 'c, 'v) gonut \<Rightarrow> 'v gonut_Variable \<Rightarrow> Variable" where
  "to_Variable lib v = \<lparr> Name = nv_Name v, Value = Sprint lib (nv_Value v) \<rparr>"

definition Poll ::
  "('w, 'c, 'v) gonut \<Rightarrow> 'c Client \<Rightarrow> 'w network
     \<Rightarrow> (error + Variable list) \<times> 'c Client \<times> 'w network" where
  "Poll lib c n =
     (case (if stale c then connect lib c n else (None, c, n)) of
        (Some err, c1, n1) \<Rightarrow> (Inl err, c1, n1)
      | (None, c1, n1) \<Rightarrow>
          (case conn c1 of
             None \<Rightarrow> (Inl (Panic ''nil pointer dereference''), c1, n1)
           | Some cn \<Rightarrow>
               (case call_GetUPSList lib cn n1 of
                  (Inl err, n2) \<Rightarrow> (Inl (ListingUPS err), c1\<lparr> stale := True \<rparr>, n2)
                | (Inr upsList, n2) \<Rightarrow>
                    (case find_target (upsName c1) upsList of
                       None \<Rightarrow> (Inl (UPSNotFound (upsName c1)), c1, n2)
                     | Some target \<Rightarrow>
                         (case call_GetVariables lib target n2 of
                            (Inl err, n3) \<Rightarrow>
                              (Inl (GettingVariables (upsName c1) err), c1\<lparr> stale := True \<rparr>, n3)
                          | (Inr nutVars, n3) \<Rightarrow>
                              (Inr (map (to_Variable lib) nutVars), c1, n3))))))"

definition Close ::
  "('w, 'c, 'v) gonut \<Rightarrow> 'c Client \<Rightarrow> 'w network \<Rightarrow> error option \<times> 'c Client \<times> 'w network" where
  "Close lib c n =
     (case conn c of
        Some cn \<Rightarrow> (case call_Disconnect lib cn n of (err, n1) \<Rightarrow> (err, c\<lparr> conn := None \<rparr>, n1))
      | None \<Rightarrow> (None, c, n))"

section \<open>Publishing (package publisher)\<close>

record Message =
  Topic :: string
  Payload :: string
  Retained :: bool

record PublishConfig =
  cfg_Prefix :: string
  cfg_UPSName :: string
  cfg_Retained :: bool

record StateMessage =
  Timestamp :: string
  UPSName :: string
  Variables :: vars
  Computed :: Metrics

record OnlineState =
  Online :: bool
  online_Timestamp :: string

subsection \<open>JSON\<close>

text \<open>
  \<open>json.Marshal\<close> in two steps: the value is turned into a JSON document following the
  field tags of the struct, and the document is written as text. The first step is
  \<open>Metrics_json\<close>, \<open>StateMessage_json\<close> and \<open>OnlineState_json\<close>: an object lists its
  members in the order of the fields; \<open>JStringMap\<close> is the object of a
  \<open>map[string]string\<close>, one string member for each key. The second step is the
  parameter \<open>json_text\<close> of the run time. Marshalling fails on a number that is a NaN
  or an infinity.
\<close>

datatype json =
    JString string
  | JNumber float64
  | JBool bool
  | JStringMap vars
  | JObject "(string \<times> json) list"

definition Metrics_json :: "Metrics \<Rightarrow> json" where
  "Metrics_json m = JObject
     [(''load_watts'', JNumber (LoadWatts m)),
      (''battery_runtime_mins'', JNumber (BatteryRuntimeMins m)),
      (''battery_runtime_hours'', JNumber (BatteryRuntimeHours m)),
      (''on_battery'', JBool (OnBattery m)),
      (''low_battery'', JBool (LowBattery m)),
      (''status_display'', JString (StatusDisplay m)),
      (''input_voltage_deviation_pct'', JNumber (InputVoltageDeviationPct m))]"

definition StateMessage_json :: "StateMessage \<Rightarrow> json" where
  "StateMessage_json st = JObject
     [(''timestamp'', JString (Timestamp st)),
      (''ups_name'', JString (UPSName st)),
      (''variables'', JStringMap (Variables st)),
      (''computed'', Metrics_json (Computed st))]"

definition OnlineState_json :: "OnlineState \<Rightarrow> json" where
  "OnlineState_json st = JObject
     [(''online'', JBool (Online st)),
      (''timestamp'', JString (online_Timestamp st))]"

fun is_finite :: "float64 \<Rightarrow> bool" where
  "is_finite (Fin s q) = True"
| "is_finite x = False"

fun supported :: "json \<Rightarrow> bool" where
  "supported (JNumber v) = is_finite v"
| "supported (JObject members) = list_all (\<lambda>kv. supported (snd kv)) members"
| "supported j = True"

text \<open>
  The parameters of a run: \<open>strconv.ParseFloat\<close>, the text of a JSON document, and the
  order in which a \<open>range\<close> loop visits the entries of a map, which Go leaves open.
\<close>

record runtime =
  ParseFloat :: parser
  json_text :: "json \<Rightarrow> string"
  range_map :: "vars \<Rightarrow> (string \<times> string) list"

definition json_Marshal :: "runtime \<Rightarrow> json \<Rightarrow> error + string" where
  "json_Marshal rt j = (if supported j then Inr (json_text rt j) else Inl UnsupportedValue)"

subsection \<open>The world of a run\<close>

text \<open>
  The poller and the publisher are interfaces: \<open>Poll\<close> and \<open>Publish\<close> are functions of
  the state of their implementation. What a run does is the sequence of the calls it
  makes through the two interfaces, each with its result; the world carries it.
\<close>

type_synonym 'p Poller = "'p \<Rightarrow> (error + Variable list) \<times> 'p"
type_synonym 's Publisher = "Message \<Rightarrow> 's \<Rightarrow> error option \<times> 's"

datatype event =
    Polled "error + Variable list"
  | Published Message "error option"

record ('p, 's) world =
  poller :: 'p
  sink :: 's
  trace :: "event list"

definition call_Poll ::
  "'p Poller \<Rightarrow> ('p, 's) world \<Rightarrow> (error + Variable list) \<times> ('p, 's) world" where
  "call_Poll P w =
     (case P (poller w) of
        (r, p) \<Rightarrow> (r, w\<lparr> poller := p, trace := trace w @ [Polled r] \<rparr>))"

definition call_Publish ::
  "'s Publisher \<Rightarrow> Message \<Rightarrow> ('p, 's) world \<Rightarrow> error option \<times> ('p, 's) world" where
  "call_Publish pub msg w =
     (case pub msg (sink w) of
        (r, s) \<Rightarrow> (r, w\<lparr> sink := s, trace := trace w @ [Published msg r] \<rparr>))"

subsection \<open>PublishAll\<close>

definition StateTopic :: "string \<Rightarrow> string \<Rightarrow> string" where
  "StateTopic prefix upsName' = prefix @ ''/'' @ upsName' @ ''/state''"

definition FormatOffline :: "runtime \<Rightarrow> string \<Rightarrow> string" where
  "FormatOffline rt now =
     (case json_Marshal rt (OnlineState_json \<lparr> Online = False, online_Timestamp = now \<rparr>) of
        Inr payload \<Rightarrow> payload
      | Inl err \<Rightarrow> [])"

definition publishState ::
  "runtime \<Rightarrow> string \<Rightarrow> vars \<Rightarrow> Metrics \<Rightarrow> PublishConfig \<Rightarrow> 's Publisher
     \<Rightarrow> ('p, 's) world \<Rightarrow> error option \<times> ('p, 's) world" where
  "publishState rt now vs m cfg pub w =
     (let state = \<lparr> Timestamp = now, UPSName = cfg_UPSName cfg, Variables = vs, Computed = m \<rparr>
      in case json_Marshal rt (StateMessage_json state) of
           Inl err \<Rightarrow> (Some (MarshallingState err), w)
         | Inr payload \<Rightarrow>
             call_Publish pub
               \<lparr> Topic = StateTopic (cfg_Prefix cfg) (cfg_UPSName cfg),
                 Payload = payload,
                 Retained = cfg_Retained cfg \<rparr> w)"

text \<open>The first loop of \<open>PublishAll\<close>, over the entries of \<open>vars\<close> in the order of the run time.\<close>

fun publish_vars ::
  "PublishConfig \<Rightarrow> 's Publisher \<Rightarrow> (string \<times> string) list \<Rightarrow> ('p, 's) world
     \<Rightarrow> error option \<times> ('p, 's) world" where
  "publish_vars cfg pub [] w = (None, w)"
| "publish_vars cfg pub ((name, value) # rest) w =
     (let topic = cfg_Prefix cfg @ ''/'' @ cfg_UPSName cfg @ ''/''
                    @ replaceAll_char name CHR ''.'' CHR ''/''
      in case call_Publish pub
                \<lparr> Topic = topic, Payload = value, Retained = cfg_Retained cfg \<rparr> w of
           (Some err, w1) \<Rightarrow> (Some err, w1)
         | (None, w1) \<Rightarrow> publish_vars cfg pub rest w1)"

text \<open>The second loop, over the entries of \<open>m.AsTopicMap()\<close>.\<close>

fun publish_computed ::
  "PublishConfig \<Rightarrow> 's Publisher \<Rightarrow> (string \<times> string) list \<Rightarrow> ('p, 's) world
     \<Rightarrow> error option \<times> ('p, 's) world" where
  "publish_computed cfg pub [] w = (None, w)"
| "publish_computed cfg pub ((name, payload) # rest) w =
     (let topic = cfg_Prefix cfg @ ''/'' @ cfg_UPSName cfg @ ''/computed/'' @ name
      in case call_Publish pub
                \<lparr> Topic = topic, Payload = payload, Retained = cfg_Retained cfg \<rparr> w of
           (Some err, w1) \<Rightarrow> (Some err, w1)
         | (None, w1) \<Rightarrow> publish_computed cfg pub rest w1)"

definition PublishAll ::
  "runtime \<Rightarrow> string \<Rightarrow> vars \<Rightarrow> Metrics \<Rightarrow> PublishConfig \<Rightarrow> 's Publisher
     \<Rightarrow> ('p, 's) world \<Rightarrow> error option \<times> ('p, 's) world" where
  "PublishAll rt now vs m cfg pub w =
     (case publish_vars cfg pub (range_map rt vs) w of
        (Some err, w1) \<Rightarrow> (Some err, w1)
      | (None, w1) \<Rightarrow>
          (case publish_computed cfg pub (range_map rt (AsTopicMap m)) w1 of
             (Some err, w2) \<Rightarrow> (Some err, w2)
           | (None, w2) \<Rightarrow> publishState rt now vs m cfg pub w2))"

section \<open>The program (package main)\<close>

record NUTConfig =
  NUT_Host :: string
  NUT_Port :: int
  NUT_Username :: string
  NUT_Password :: string
  NUT_UPSName :: string

record MQTTConfig =
  MQTT_TopicPrefix :: string
  MQTT_Retained :: bool

record Config =
  NUT :: NUTConfig
  MQTT :: MQTTConfig

text \<open>
  \<open>doPoll\<close>; \<open>now\<close> is the reading of the clock, formatted, that the state message of
  this cycle carries.
\<close>

definition doPoll ::
  "runtime \<Rightarrow> string \<Rightarrow> 'p Poller \<Rightarrow> 's Publisher \<Rightarrow> Config \<Rightarrow> ('p, 's) world
     \<Rightarrow> error option \<times> ('p, 's) world" where
  "doPoll rt now P pub cfg w =
     (case call_Poll P w of
        (Inl err, w1) \<Rightarrow> (Some (PollingNUT err), w1)
      | (Inr vs, w1) \<Rightarrow>
          (let varMap = VarsToMap vs;
               m = Compute (ParseFloat rt) varMap;
               pubCfg = \<lparr> cfg_Prefix = MQTT_TopicPrefix (MQTT cfg),
                          cfg_UPSName = NUT_UPSName (NUT cfg),
                          cfg_Retained = MQTT_Retained (MQTT cfg) \<rparr>
           in case PublishAll rt now varMap m pubCfg pub w1 of
                (Some err, w2) \<Rightarrow> (Some (Publishing err), w2)
              | (None, w2) \<Rightarrow> (None, w2)))"

subsection \<open>connectNUT\<close>

text \<open>
  A \<open>time.Duration\<close> is a number of nanoseconds. The loop of \<open>connectNUT\<close> has no bound,
  so it is a partial function: \<open>None\<close> is the run that never returns. The world outside
  is given by two sequences: \<open>dial k\<close> is the result of the call of \<open>nut.NewClient\<close> in
  round \<open>k\<close>, and \<open>cancelled k\<close> tells whether, in the \<open>select\<close> of round \<open>k\<close>, the context
  is done before the timer fires. The function returns, with its result, the number of
  calls of \<open>nut.NewClient\<close> it has made and the durations it has waited for, in order.
\<close>

definition second :: int where
  "second = 1000000000"

definition maxBackoff :: int where
  "maxBackoff = 60 * second"

partial_function (option) connectNUT_loop ::
  "(nat \<Rightarrow> error + 'c) \<Rightarrow> (nat \<Rightarrow> bool) \<Rightarrow> nat \<Rightarrow> int \<Rightarrow> int list
     \<Rightarrow> ((error + 'c) \<times> nat \<times> int list) option" where
  "connectNUT_loop dial cancelled k backoff waits =
     (case dial k of
        Inr c \<Rightarrow> Some (Inr c, Suc k, waits)
      | Inl err \<Rightarrow>
          if cancelled k then Some (Inl Canceled, Suc k, waits @ [backoff])
          else connectNUT_loop dial cancelled (Suc k)
                 (if maxBackoff < backoff * 2 then maxBackoff else backoff * 2)
                 (waits @ [backoff]))"

definition connectNUT ::
  "(nat \<Rightarrow> error + 'c) \<Rightarrow> (nat \<Rightarrow> bool) \<Rightarrow> ((error + 'c) \<times> nat \<times> int list) option" where
  "connectNUT dial cancelled = connectNUT_loop dial cancelled 0 second []"

subsection \<open>The poll loop and the shutdown sequence of main\<close>

text \<open>
  The loop of \<open>main\<close> runs one cycle for each tick until the context is done; \<open>n\<close> is
  the number of ticks that come before. \<open>clock i\<close> is the reading of the clock in cycle
  \<open>i\<close>.
\<close>

fun poll_ticks ::
  "runtime \<Rightarrow> (nat \<Rightarrow> string) \<Rightarrow> 'p Poller \<Rightarrow> 's Publisher \<Rightarrow> Config \<Rightarrow> nat \<Rightarrow> nat
     \<Rightarrow> ('p, 's) world \<Rightarrow> ('p, 's) world" where
  "poll_ticks rt clock P pub cfg i 0 w = w"
| "poll_ticks rt clock P pub cfg i (Suc n) w =
     (case doPoll rt (clock i) P pub cfg w of
        (err, w1) \<Rightarrow> poll_ticks rt clock P pub cfg (Suc i) n w1)"

text \<open>
  What \<open>main\<close> does once the loop is left: a final \<open>doPoll\<close>, then the offline
  announcement. Both errors are only logged; the model returns them with the world.
\<close>

definition shutdown ::
  "runtime \<Rightarrow> string \<Rightarrow> string \<Rightarrow> 'p Poller \<Rightarrow> 's Publisher \<Rightarrow> Config \<Rightarrow> string
     \<Rightarrow> ('p, 's) world \<Rightarrow> error option \<times> error option \<times> ('p, 's) world" where
  "shutdown rt now_final now_off P pub cfg lwtTopic w =
     (case doPoll rt now_final P pub cfg w of
        (err1, w1) \<Rightarrow>
          (let offMsg = \<lparr> Topic = lwtTopic, Payload = FormatOffline rt now_off, Retained = True \<rparr>
           in case call_Publish pub offMsg w1 of
                (err2, w2) \<Rightarrow> (err1, err2, w2)))"

definition main_after_connect ::
  "runtime \<Rightarrow> (nat \<Rightarrow> string) \<Rightarrow> string \<Rightarrow> 'p Poller \<Rightarrow> 's Publisher \<Rightarrow> Config \<Rightarrow> nat
     \<Rightarrow> ('p, 's) world \<Rightarrow> error option \<times> error option \<times> ('p, 's) world" where
  "main_after_connect rt clock now_off P pub cfg n w =
     (let lwtTopic = StateTopic (MQTT_TopicPrefix (MQTT cfg)) (NUT_UPSName (NUT cfg))
      in shutdown rt (clock n) now_off P pub cfg lwtTopic
           (poll_ticks rt clock P pub cfg 0 n w))"

section \<open>The specification's reading of the operations\<close>

text \<open>
  The status dictionary and the decoding of \<open>ups.status\<close> as the specification words
  them: tokenize on white space, map each token through the dictionary, pass unknown
  tokens through, join with a comma and a space.
\<close>

definition spec_dictionary :: "(string \<times> string) list" where
  "spec_dictionary =
    [(''OL'', ''Online''), (''OB'', ''On Battery''), (''LB'', ''Low Battery''),
     (''HB'', ''High Battery''), (''RB'', ''Replace Battery''), (''CHRG'', ''Charging''),
     (''DISCHRG'', ''Discharging''), (''BYPASS'', ''Bypass''), (''CAL'', ''Calibrating''),
     (''OFF'', ''Offline''), (''OVER'', ''Overloaded''), (''TRIM'', ''Trimming''),
     (''BOOST'', ''Boosting''), (''FSD'', ''Forced Shutdown'')]"

definition spec_decode :: "string \<Rightarrow> string" where
  "spec_decode t = (case map_of spec_dictionary t of Some name \<Rightarrow> name | None \<Rightarrow> t)"

definition status_display_spec :: "vars \<Rightarrow> string" where
  "status_display_spec vs =
     (case vs ''ups.status'' of
        None \<Rightarrow> []
      | Some status \<Rightarrow> strings_Join (map spec_decode (strings_Fields status)) '', '')"

section \<open>Observing the client\<close>

text \<open>
  The kinds of failure of \<open>Poll\<close>, read off the error it returns, and the library calls
  made between two states of the network.
\<close>

fun is_fetch_failure :: "error + 'a \<Rightarrow> bool" where
  "is_fetch_failure (Inl (ListingUPS e)) = True"
| "is_fetch_failure (Inl (GettingVariables nm e)) = True"
| "is_fetch_failure r = False"

fun is_connect_failure :: "error + 'a \<Rightarrow> bool" where
  "is_connect_failure (Inl (ConnectingToNUT h p e)) = True"
| "is_connect_failure (Inl (AuthenticatingWithNUT e)) = True"
| "is_connect_failure r = False"

definition new_calls :: "'w network \<Rightarrow> 'w network \<Rightarrow> nut_call list" where
  "new_calls n n' = drop (length (calls n)) (calls n')"

text \<open>
  The first step of \<open>Poll\<close> has gone through: a stale client has reconnected, giving the
  client \<open>c1\<close> and the network \<open>n1\<close>; a client that is not stale goes on as it is.
\<close>

definition reconnected ::
  "('w, 'c, 'v) gonut \<Rightarrow> 'c Client \<Rightarrow> 'w network \<Rightarrow> 'c Client \<Rightarrow> 'w network \<Rightarrow> bool" where
  "reconnected lib c n c1 n1 \<longleftrightarrow>
     (if stale c then connect lib c n = (None, c1, n1) else c1 = c \<and> n1 = n)"


text \<open>
  A library for concrete runs: the world is a script, a list of booleans, and each call
  that can fail consumes the head of the script and succeeds when it is \<open>True\<close>. The only UPS
  it lists is \<open>cyberpower\<close>.
\<close>

definition scripted_lib :: "(bool list, unit, string) gonut" where
  "scripted_lib =
     \<lparr> Connect = (\<lambda>h p w. (if hd w then Inr () else Inl (External ''refused''), tl w)),
       Authenticate = (\<lambda>cn u p w. (if hd w then None else Some (External ''denied''), tl w)),
       Disconnect = (\<lambda>cn w. (None, w)),
       GetUPSList = (\<lambda>cn w.
          (if hd w then Inr [\<lparr> ups_Name = ''cyberpower'', ups_client = () \<rparr>]
           else Inl (External ''connection lost''), tl w)),
       GetVariables = (\<lambda>u w.
          (if hd w then Inr [\<lparr> nv_Name = ''ups.status'', nv_Value = ''OL'' \<rparr>]
           else Inl (External ''connection lost''), tl w)),
       Sprint = (\<lambda>v. v) \<rparr>"

definition sample_client :: "bool \<Rightarrow> string \<Rightarrow> unit Client" where
  "sample_client st ups =
     \<lparr> host = ''localhost'', port = 3493, username = [], password = [], upsName = ups,
       conn = Some (), stale = st \<rparr>"

section \<open>Observing a run\<close>

text \<open>
  The events a run adds to the trace; the error of the first \<open>Publish\<close> that failed;
  whether a sequence of events stops at the first \<open>Publish\<close> that failed; and the state of
  the publisher after the \<open>Publish\<close> calls of a sequence, made in order.
\<close>

definition new_events :: "('p, 's) world \<Rightarrow> ('p, 's) world \<Rightarrow> event list" where
  "new_events w w' = drop (length (trace w)) (trace w')"

fun is_publish :: "event \<Rightarrow> bool" where
  "is_publish (Published m r) = True"
| "is_publish (Polled r) = False"

fun first_failure :: "event list \<Rightarrow> error option" where
  "first_failure [] = None"
| "first_failure (Published m (Some e) # evs) = Some e"
| "first_failure (ev # evs) = first_failure evs"

fun ends_at_failure :: "event list \<Rightarrow> bool" where
  "ends_at_failure [] = True"
| "ends_at_failure (Published m (Some e) # evs) = (evs = [])"
| "ends_at_failure (ev # evs) = ends_at_failure evs"

fun replay :: "'s Publisher \<Rightarrow> event list \<Rightarrow> 's \<Rightarrow> 's" where
  "replay pub [] s = s"
| "replay pub (Published m r # evs) s = replay pub evs (snd (pub m s))"
| "replay pub (Polled r # evs) s = replay pub evs s"


text \<open>
  \<open>publishes pub w w' evs\<close>: from \<open>w\<close> to \<open>w'\<close> the run has made the \<open>Publish\<close> calls
  \<open>evs\<close> and nothing else.
\<close>

definition publishes :: "'s Publisher \<Rightarrow> ('p, 's) world \<Rightarrow> ('p, 's) world \<Rightarrow> event list \<Rightarrow> bool" where
  "publishes pub w w' evs \<longleftrightarrow>
     trace w' = trace w @ evs \<and> list_all is_publish evs \<and> ends_at_failure evs
     \<and> sink w' = replay pub evs (sink w) \<and> poller w' = poller w"

definition pubCfg_of :: "Config \<Rightarrow> PublishConfig" where
  "pubCfg_of cfg = \<lparr> cfg_Prefix = MQTT_TopicPrefix (MQTT cfg),
                          cfg_UPSName = NUT_UPSName (NUT cfg),
                          cfg_Retained = MQTT_Retained (MQTT cfg) \<rparr>"


text \<open>The names of the members of a JSON object, in order.\<close>

fun json_fields :: "json \<Rightarrow> string list" where
  "json_fields (JObject members) = map fst members"
| "json_fields j = []"


section \<open>Doubles for concrete runs\<close>

text \<open>
  \<open>FakePublisher\<close> and \<open>FakePoller\<close> are the test doubles of the repository.
  \<open>limited_Publish\<close> is a publisher that accepts a given number of messages and fails
  from then on. The sample run time reads two numbers, writes a JSON document as the
  names of its members, and visits the entries of a map in the order of \<open>sample_keys\<close>.
\<close>

record FakePublisher =
  Messages :: "Message list"
  PublishError :: "error option"
  pub_Closed :: bool

definition FakePublisher_Publish :: "FakePublisher Publisher" where
  "FakePublisher_Publish msg f =
     (case PublishError f of
        Some err \<Rightarrow> (Some err, f)
      | None \<Rightarrow> (None, f\<lparr> Messages := Messages f @ [msg] \<rparr>))"

record FakePoller =
  fk_Variables :: "Variable list"
  fk_Sequence :: "Variable list list"
  fk_Err :: "error option"
  fk_CallCount :: int
  fk_Closed :: bool

definition FakePoller_Poll :: "FakePoller Poller" where
  "FakePoller_Poll f0 =
     (let f = f0\<lparr> fk_CallCount := fk_CallCount f0 + 1 \<rparr> in
      case fk_Err f of
        Some err \<Rightarrow> (Inl err, f)
      | None \<Rightarrow>
          if 0 < length (fk_Sequence f) then
            (let idx = fk_CallCount f - 1;
                 idx = (if int (length (fk_Sequence f)) \<le> idx
                        then int (length (fk_Sequence f)) - 1 else idx)
             in if idx < 0 then (Inl (Panic ''index out of range''), f)
                else (Inr (fk_Sequence f ! nat idx), f))
          else (Inr (fk_Variables f), f))"

definition limited_Publish :: "nat Publisher" where
  "limited_Publish msg k =
     (if k = 0 then (Some (External ''broker down''), 0) else (None, k - 1))"

definition sample_ParseFloat :: parser where
  "sample_ParseFloat s =
     (if s = ''0'' then Inr (f64 0)
      else if s = ''230'' then Inr (f64 230)
      else Inl (External ''invalid syntax''))"

definition sample_keys :: "string list" where
  "sample_keys =
     [''ups.status'', ''input.voltage'', ''input.voltage.nominal'',
      ''load_watts'', ''battery_runtime_mins'', ''battery_runtime_hours'', ''on_battery'',
      ''low_battery'', ''status_display'', ''input_voltage_deviation_pct'']"

fun entries :: "string list \<Rightarrow> vars \<Rightarrow> (string \<times> string) list" where
  "entries [] m = []"
| "entries (k # ks) m =
     (case m k of None \<Rightarrow> entries ks m | Some v \<Rightarrow> (k, v) # entries ks m)"

definition sample_runtime :: runtime where
  "sample_runtime =
     \<lparr> ParseFloat = sample_ParseFloat,
       json_text = (\<lambda>j. strings_Join (json_fields j) '',''),
       range_map = entries sample_keys \<rparr>"

definition sample_cfg :: Config where
  "sample_cfg =
     \<lparr> NUT = \<lparr> NUT_Host = ''localhost'', NUT_Port = 3493, NUT_Username = [],
               NUT_Password = [], NUT_UPSName = ''cyberpower'' \<rparr>,
       MQTT = \<lparr> MQTT_TopicPrefix = ''ups'', MQTT_Retained = True \<rparr> \<rparr>"

definition sample_poller :: FakePoller where
  "sample_poller =
     \<lparr> fk_Variables = [\<lparr> Name = ''ups.status'', Value = ''OL'' \<rparr>,
                       \<lparr> Name = ''input.voltage'', Value = ''0'' \<rparr>],
       fk_Sequence = [], fk_Err = None, fk_CallCount = 0, fk_Closed = False \<rparr>"

definition sample_world :: "(FakePoller, FakePublisher) world" where
  "sample_world =
     \<lparr> poller = sample_poller,
       sink = \<lparr> Messages = [], PublishError = None, pub_Closed = False \<rparr>,
       trace = [] \<rparr>"


section \<open>Names in the specification\<close>

text \<open>
  The canonical names of the seven derived metrics, and the names of the fields of the
  combined state message as the specification gives them.
\<close>

definition canonical_names :: "string list" where
  "canonical_names =
     [''load_watts'', ''battery_runtime_mins'', ''battery_runtime_hours'', ''on_battery'',
      ''low_battery'', ''status_display'', ''input_voltage_deviation_pct'']"

definition spec_state_fields :: "string list" where
  "spec_state_fields = [''timestamp'', ''target_name'', ''variables'', ''computed'']"

section \<open>Observing connectNUT\<close>

text \<open>
  The delay before round \<open>k + 1\<close> as the specification gives it: one second at first,
  doubled after each failure, at most sixty seconds. \<open>failing dial k\<close>: the call of
  \<open>nut.NewClient\<close> in round \<open>k\<close> returns an error. \<open>returned\<close> describes a run of the
  loop from round \<open>k\<close> that has returned \<open>y\<close>.
\<close>

definition delay :: "nat \<Rightarrow> int" where
  "delay k = min (2 ^ k * second) maxBackoff"

definition failing :: "(nat \<Rightarrow> error + 'c) \<Rightarrow> nat \<Rightarrow> bool" where
  "failing dial k = (case dial k of Inl e \<Rightarrow> True | Inr c \<Rightarrow> False)"

definition returned :: "(nat \<Rightarrow> error + 'c) \<Rightarrow> (nat \<Rightarrow> bool) \<Rightarrow> nat
    \<Rightarrow> (error + 'c) \<times> nat \<times> int list \<Rightarrow> bool" where
  "returned dial cancelled k y \<longleftrightarrow>
     k < fst (snd y)
     \<and> (\<forall>j. k \<le> j \<and> Suc j < fst (snd y) \<longrightarrow> failing dial j \<and> \<not> cancelled j)
     \<and> (fst y = dial (fst (snd y) - 1) \<and> \<not> failing dial (fst (snd y) - 1)
         \<or> fst y = Inl Canceled \<and> failing dial (fst (snd y) - 1)
            \<and> cancelled (fst (snd y) - 1))"

text \<open>
  What \<open>main\<close> makes of the result of \<open>connectNUT\<close>: on an error it logs and returns, and
  the process exits with status 0; otherwise it goes on with the client.
\<close>

datatype 'c startup = Exited int | Connected 'c

definition main_connect ::
  "(nat \<Rightarrow> error + 'c) \<Rightarrow> (nat \<Rightarrow> bool) \<Rightarrow> 'c startup option" where
  "main_connect dial cancelled =
     (case connectNUT dial cancelled of
        None \<Rightarrow> None
      | Some (Inl err, m, ws) \<Rightarrow> Some (Exited 0)
      | Some (Inr nutClient, m, ws) \<Rightarrow> Some (Connected nutClient))"

text \<open>A world in which the first two calls of \<open>nut.NewClient\<close> are refused.\<close>

definition refused_twice :: "nat \<Rightarrow> error + unit Client" where
  "refused_twice k =
     (if k < 2 then Inl (ConnectingToNUT ''localhost'' 3493 (External ''connection refused''))
      else Inr (sample_client False ''cyberpower''))"

text \<open>The rounding policy of the specification: \<open>round(x * 100) / 100\<close>.\<close>

definition round2 :: "float64 \<Rightarrow> float64" where
  "round2 x = fdiv (math_Round (fmul x (f64 100))) (f64 100)"

section \<open>Reading a rendering back\<close>

text \<open>
  The magnitude that \<open>rnd64\<close> rounds to, before the test for overflow.
\<close>

definition rounded :: "rat \<Rightarrow> rat" where
  "rounded q =
     (let u = max (ilog 2 q - 52) (- 1074)
      in of_int (round_half_even (q / ipow 2 u)) * ipow 2 u)"

text \<open>
  A \<open>float64\<close> of the program holds a binary64 value: its magnitude is not changed by
  the rounding.
\<close>

fun is_float64 :: "float64 \<Rightarrow> bool" where
  "is_float64 NaN = True"
| "is_float64 (Inf s) = True"
| "is_float64 (Fin s q) = (0 \<le> q \<and> rnd64 s q = Fin s q)"

text \<open>
  The specification says of a rendering that it is round-trippable: read back, it gives the
  value again. \<open>strconv.ParseFloat\<close> reads a decimal numeral as the real number it writes
  and returns the nearest binary64 value, ties to even; it also reads \<open>NaN\<close>, \<open>+Inf\<close> and
  \<open>-Inf\<close>. \<open>read_decimal\<close> is the number that a numeral without exponent writes: digits, and
  after an optional point more digits.
\<close>

definition digit_value :: "char \<Rightarrow> nat" where
  "digit_value c = length (takeWhile (\<lambda>d. d \<noteq> c) ''0123456789'')"

definition digits_value :: "string \<Rightarrow> nat" where
  "digits_value t = foldl (\<lambda>a c. 10 * a + digit_value c) 0 t"

definition is_digits :: "string \<Rightarrow> bool" where
  "is_digits t \<longleftrightarrow> t \<noteq> [] \<and> set t \<subseteq> set ''0123456789''"

definition read_decimal :: "string \<Rightarrow> rat option" where
  "read_decimal t =
     (let ip = takeWhile (\<lambda>c. c \<noteq> CHR ''.'') t;
          rest = dropWhile (\<lambda>c. c \<noteq> CHR ''.'') t
      in if rest = [] then (if is_digits ip then Some (of_nat (digits_value ip)) else None)
         else let fp = tl rest
              in if is_digits ip \<and> is_digits fp
                 then Some (of_nat (digits_value (ip @ fp)) / 10 ^ length fp)
                 else None)"

definition read_back :: "string \<Rightarrow> float64 option" where
  "read_back t =
     (if t = ''NaN'' then Some NaN
      else if t = ''+Inf'' then Some (Inf False)
      else if t = ''-Inf'' then Some (Inf True)
      else case t of
             c # t' \<Rightarrow> if c = CHR ''-'' then map_option (rnd64 True) (read_decimal t')
                       else map_option (rnd64 False) (read_decimal t)
           | [] \<Rightarrow> None)"

text \<open>
  The significant digits of a numeral: its digits without the zeros in front and the zeros
  at the end.
\<close>

definition significant :: "string \<Rightarrow> string" where
  "significant t =
     (let ds = filter (\<lambda>c. c \<in> set ''0123456789'') t;
          ds' = dropWhile (\<lambda>c. c = CHR ''0'') ds
      in rev (dropWhile (\<lambda>c. c = CHR ''0'') (rev ds')))"

(*THEOREMS*)

section \<open>Status display\<close>

lemma decode_loop_map: "decode_loop acc ts = acc @ map spec_decode ts"
  by (induction ts arbitrary: acc)
    (simp_all add: spec_decode_def statusTokens_def statusTokens_table_def spec_dictionary_def
      split: option.splits)

lemma strings_Fields_Nil: "strings_Fields [] = []"
  by (simp add: strings_Fields_def)

text \<open>
  Claim C8. For every snapshot, \<open>status_display\<close> is the white space tokenization of
  \<open>ups.status\<close> with each token mapped through the dictionary of 14 entries, unknown
  tokens passed through unchanged, joined in their order with a comma and a space; the
  dictionary of the code is the one the specification lists; an absent and an empty
  \<open>ups.status\<close> give the empty string.
\<close>

theorem status_display_decodes_tokens:
  "computeStatusDisplay vs = status_display_spec vs
   \<and> length spec_dictionary = 14 \<and> distinct (map fst spec_dictionary)
   \<and> statusTokens = map_of spec_dictionary
   \<and> computeStatusDisplay (vs(''ups.status'' := None)) = []
   \<and> computeStatusDisplay (vs(''ups.status'' \<mapsto> [])) = []"
proof (intro conjI)
  show "computeStatusDisplay vs = status_display_spec vs"
    by (simp add: computeStatusDisplay_def status_display_spec_def lookup_def decode_loop_map
        strings_Fields_Nil split: option.splits)
  show "length spec_dictionary = 14"
    by (simp add: spec_dictionary_def)
  show "distinct (map fst spec_dictionary)"
    by (simp add: spec_dictionary_def)
  show "statusTokens = map_of spec_dictionary"
    by (simp add: statusTokens_def statusTokens_table_def spec_dictionary_def)
  show "computeStatusDisplay (vs(''ups.status'' := None)) = []"
    by (simp add: computeStatusDisplay_def lookup_def)
  show "computeStatusDisplay (vs(''ups.status'' \<mapsto> [])) = []"
    by (simp add: computeStatusDisplay_def lookup_def)
qed

section \<open>The staleness of the NUT client\<close>

lemma connect_failed:
  assumes "connect lib c n = (Some err, c1, n1)"
  shows "c1 = c \<and> is_connect_failure (Inl err :: error + 'a)
         \<and> (calls n1 = calls n @ [Call_Connect]
            \<or> calls n1 = calls n @ [Call_Connect, Call_Authenticate, Call_Disconnect])"
  using assms
  by (auto simp: connect_def call_Connect_def call_Authenticate_def call_Disconnect_def
      split: prod.splits sum.splits if_splits option.splits)

lemma connect_succeeded:
  assumes "connect lib c n = (None, c1, n1)"
  shows "\<exists>cn. c1 = c\<lparr> conn := Some cn, stale := False \<rparr>
         \<and> (calls n1 = calls n @ [Call_Connect]
            \<or> calls n1 = calls n @ [Call_Connect, Call_Authenticate])"
  using assms
  by (auto simp: connect_def call_Connect_def call_Authenticate_def call_Disconnect_def
      split: prod.splits sum.splits if_splits option.splits)

text \<open>Poll on a client that is not stale.\<close>
lemma Poll_fresh:
  assumes "\<not> stale c" and "Poll lib c n = (r, c', n')"
  shows "(is_fetch_failure r \<and> c' = c\<lparr> stale := True \<rparr>
            \<and> (calls n' = calls n @ [Call_GetUPSList]
                \<or> calls n' = calls n @ [Call_GetUPSList, Call_GetVariables]))
       \<or> (\<not> is_fetch_failure r \<and> \<not> is_connect_failure r \<and> c' = c
            \<and> (calls n' = calls n \<or> calls n' = calls n @ [Call_GetUPSList]
                \<or> calls n' = calls n @ [Call_GetUPSList, Call_GetVariables]))"
  using assms
  by (auto simp: Poll_def call_GetUPSList_def call_GetVariables_def
      split: prod.splits sum.splits if_splits option.splits)

lemma Poll_stale:
  assumes "stale c"
  shows "Poll lib c n =
     (case connect lib c n of
        (Some err, c1, n1) \<Rightarrow> (Inl err, c1, n1)
      | (None, c1, n1) \<Rightarrow> Poll lib c1 n1)"
  using assms
  by (auto simp: Poll_def dest!: connect_succeeded split: prod.splits option.splits)


lemmas client_defs = Poll_def connect_def call_Connect_def call_Authenticate_def
  call_Disconnect_def call_GetUPSList_def call_GetVariables_def new_calls_def

lemma Poll_stale_after:
  assumes "Poll lib c n = (r, c', n')"
  shows "stale c' \<longleftrightarrow> is_fetch_failure r \<or> (stale c \<and> is_connect_failure r)"
  using assms
  by (auto simp: client_defs split: prod.splits sum.splits if_splits option.splits)

lemma Poll_stale_first_call:
  assumes "Poll lib c n = (r, c', n')" and "stale c"
  shows "\<exists>rest. new_calls n n' = Call_Connect # rest"
  using assms
  by (auto simp: client_defs split: prod.splits sum.splits if_splits option.splits)

lemma Poll_stale_connect_failure:
  assumes "Poll lib c n = (r, c', n')" and "stale c" and "is_connect_failure r"
  shows "c' = c \<and> (\<exists>err. r = Inl err \<and> connect lib c n = (Some err, c', n'))"
  using assms
  by (auto simp: client_defs split: prod.splits sum.splits if_splits option.splits)

lemma Poll_stale_connect_success:
  assumes "Poll lib c n = (r, c', n')" and "stale c" and "\<not> is_connect_failure r"
  shows "\<exists>c1 n1. connect lib c n = (None, c1, n1) \<and> \<not> stale c1 \<and> Poll lib c1 n1 = (r, c', n')"
  using assms Poll_stale[OF assms(2), of lib n]
  by (auto split: prod.splits option.splits dest: connect_succeeded connect_failed)

lemma Poll_fresh_no_connect:
  assumes "Poll lib c n = (r, c', n')" and "\<not> stale c"
  shows "Call_Connect \<notin> set (new_calls n n')"
  using Poll_fresh[OF assms(2) assms(1)] by (auto simp: new_calls_def)

lemma Poll_fetch_failure_last:
  assumes "Poll lib c n = (r, c', n')" and "is_fetch_failure r"
  shows "last (new_calls n n') = Call_GetUPSList \<or> last (new_calls n n') = Call_GetVariables"
  using assms
  by (auto simp: client_defs split: prod.splits sum.splits if_splits option.splits)

text \<open>The result of \<open>Poll\<close>, from the results of its steps.\<close>

lemma Poll_connect_fails:
  assumes "stale c" and "connect lib c n = (Some err, c1, n1)"
  shows "Poll lib c n = (Inl err, c, n1) \<and> c1 = c"
proof -
  from connect_failed[OF assms(2), where ?'a = unit] have "c1 = c" by simp
  with assms show ?thesis by (simp add: Poll_def)
qed

lemma reconnected_fresh:
  assumes "reconnected lib c n c1 n1"
  shows "\<not> stale c1"
    and "(if stale c then connect lib c n else (None, c, n)) = (None, c1, n1)"
  using assms by (auto simp: reconnected_def dest!: connect_succeeded split: if_splits)

lemma Poll_list_fails:
  assumes "reconnected lib c n c1 n1" and "conn c1 = Some cn"
    and "call_GetUPSList lib cn n1 = (Inl err, n2)"
  shows "Poll lib c n = (Inl (ListingUPS err), c1\<lparr> stale := True \<rparr>, n2)"
  using reconnected_fresh(2)[OF assms(1)] assms(2,3) by (simp add: Poll_def)

lemma Poll_not_found:
  assumes "reconnected lib c n c1 n1" and "conn c1 = Some cn"
    and "call_GetUPSList lib cn n1 = (Inr upsList, n2)"
    and "find_target (upsName c1) upsList = None"
  shows "Poll lib c n = (Inl (UPSNotFound (upsName c1)), c1, n2)"
  using reconnected_fresh(2)[OF assms(1)] assms(2,3,4) by (simp add: Poll_def)

lemma Poll_retrieve_fails:
  assumes "reconnected lib c n c1 n1" and "conn c1 = Some cn"
    and "call_GetUPSList lib cn n1 = (Inr upsList, n2)"
    and "find_target (upsName c1) upsList = Some target"
    and "call_GetVariables lib target n2 = (Inl err, n3)"
  shows "Poll lib c n = (Inl (GettingVariables (upsName c1) err), c1\<lparr> stale := True \<rparr>, n3)"
  using reconnected_fresh(2)[OF assms(1)] assms(2,3,4,5) by (simp add: Poll_def)

lemma Poll_retrieves:
  assumes "reconnected lib c n c1 n1" and "conn c1 = Some cn"
    and "call_GetUPSList lib cn n1 = (Inr upsList, n2)"
    and "find_target (upsName c1) upsList = Some target"
    and "call_GetVariables lib target n2 = (Inr nutVars, n3)"
  shows "Poll lib c n = (Inr (map (to_Variable lib) nutVars), c1, n3)"
  using reconnected_fresh(2)[OF assms(1)] assms(2,3,4,5) by (simp add: Poll_def)

text \<open>
  Claim C5. The staleness of the connector. After any \<open>Poll\<close>, the client is stale exactly
  when the list or the retrieve step has failed, or it was stale and the reconnection
  failed. A stale client reconnects first, before any other call: a failed reconnection
  is returned as the result and leaves the client as it was; after a successful one the
  client is not stale and the fetch goes on with the new session. A client that is not
  stale makes no call to connect. After a failure of the list or retrieve step the
  failing call is the last call of that \<open>Poll\<close>, and the next \<open>Poll\<close> starts by connecting.
  In the other direction, from the steps to the result: when the reconnection of a stale
  client fails, \<open>Poll\<close> returns that failure and the client is unchanged; when \<open>GetUPSList\<close>
  fails, \<open>Poll\<close> returns the failure wrapped as a listing failure and the client is stale;
  when \<open>GetVariables\<close> fails, \<open>Poll\<close> returns the failure wrapped with the name of the UPS
  and the client is stale; when every step succeeds, \<open>Poll\<close> returns the variables and the
  client is not stale.
\<close>

theorem Poll_staleness_machine:
  assumes "Poll lib c n = (r, c', n')"
  shows "(stale c' \<longleftrightarrow> is_fetch_failure r \<or> (stale c \<and> is_connect_failure r))
    \<and> (stale c \<longrightarrow> (\<exists>rest. new_calls n n' = Call_Connect # rest))
    \<and> (stale c \<and> is_connect_failure r \<longrightarrow>
          c' = c \<and> (\<exists>err. r = Inl err \<and> connect lib c n = (Some err, c', n')))
    \<and> (stale c \<and> \<not> is_connect_failure r \<longrightarrow>
          (\<exists>c1 n1. connect lib c n = (None, c1, n1) \<and> \<not> stale c1
             \<and> Poll lib c1 n1 = (r, c', n')))
    \<and> (\<not> stale c \<longrightarrow> Call_Connect \<notin> set (new_calls n n'))
    \<and> (is_fetch_failure r \<longrightarrow>
          (last (new_calls n n') = Call_GetUPSList \<or> last (new_calls n n') = Call_GetVariables)
          \<and> (\<exists>rest. new_calls n' (snd (snd (Poll lib c' n'))) = Call_Connect # rest))
    \<and> (stale c \<and> connect lib c n = (Some err, c1, n1) \<longrightarrow>
          Poll lib c n = (Inl err, c, n1) \<and> c1 = c)
    \<and> (stale c \<and> connect lib c n = (None, c1, n1) \<longrightarrow> \<not> stale c1 \<and> conn c1 \<noteq> None)
    \<and> (reconnected lib c n c1 n1 \<and> conn c1 = Some cn
          \<and> call_GetUPSList lib cn n1 = (Inl err, n2) \<longrightarrow>
          Poll lib c n = (Inl (ListingUPS err), c1\<lparr> stale := True \<rparr>, n2))
    \<and> (reconnected lib c n c1 n1 \<and> conn c1 = Some cn
          \<and> call_GetUPSList lib cn n1 = (Inr upsList, n2)
          \<and> find_target (upsName c1) upsList = Some target
          \<and> call_GetVariables lib target n2 = (Inl err, n3) \<longrightarrow>
          Poll lib c n = (Inl (GettingVariables (upsName c1) err), c1\<lparr> stale := True \<rparr>, n3))
    \<and> (reconnected lib c n c1 n1 \<and> conn c1 = Some cn
          \<and> call_GetUPSList lib cn n1 = (Inr upsList, n2)
          \<and> find_target (upsName c1) upsList = Some target
          \<and> call_GetVariables lib target n2 = (Inr nutVars, n3) \<longrightarrow>
          Poll lib c n = (Inr (map (to_Variable lib) nutVars), c1, n3) \<and> \<not> stale c1)"
proof (intro conjI impI)
  show st: "stale c' \<longleftrightarrow> is_fetch_failure r \<or> (stale c \<and> is_connect_failure r)"
    by (rule Poll_stale_after[OF assms])
  show "\<exists>rest. new_calls n n' = Call_Connect # rest" if "stale c"
    by (rule Poll_stale_first_call[OF assms that])
  show "c' = c" if "stale c \<and> is_connect_failure r"
    using Poll_stale_connect_failure[OF assms] that by blast
  show "\<exists>err. r = Inl err \<and> connect lib c n = (Some err, c', n')"
    if "stale c \<and> is_connect_failure r"
    using Poll_stale_connect_failure[OF assms] that by blast
  show "\<exists>c1 n1. connect lib c n = (None, c1, n1) \<and> \<not> stale c1 \<and> Poll lib c1 n1 = (r, c', n')"
    if "stale c \<and> \<not> is_connect_failure r"
    using Poll_stale_connect_success[OF assms] that by blast
  show "Call_Connect \<notin> set (new_calls n n')" if "\<not> stale c"
    by (rule Poll_fresh_no_connect[OF assms that])
  show "last (new_calls n n') = Call_GetUPSList \<or> last (new_calls n n') = Call_GetVariables"
    if "is_fetch_failure r"
    by (rule Poll_fetch_failure_last[OF assms that])
  show "\<exists>rest. new_calls n' (snd (snd (Poll lib c' n'))) = Call_Connect # rest"
    if f: "is_fetch_failure r"
  proof -
    from st f have "stale c'" by simp
    moreover obtain r2 c2 n2 where "Poll lib c' n' = (r2, c2, n2)"
      by (cases "Poll lib c' n'") auto
    ultimately show ?thesis
      using Poll_stale_first_call by fastforce
  qed
  show "Poll lib c n = (Inl err, c, n1)" "c1 = c"
    if "stale c \<and> connect lib c n = (Some err, c1, n1)"
    using Poll_connect_fails[of c lib n err c1 n1] that by simp_all
  show "\<not> stale c1" "conn c1 \<noteq> None"
    if "stale c \<and> connect lib c n = (None, c1, n1)"
    using connect_succeeded[of lib c n c1 n1] that by auto
  show "Poll lib c n = (Inl (ListingUPS err), c1\<lparr> stale := True \<rparr>, n2)"
    if "reconnected lib c n c1 n1 \<and> conn c1 = Some cn
          \<and> call_GetUPSList lib cn n1 = (Inl err, n2)"
    using Poll_list_fails[of lib c n c1 n1 cn err n2] that by simp
  show "Poll lib c n = (Inl (GettingVariables (upsName c1) err), c1\<lparr> stale := True \<rparr>, n3)"
    if "reconnected lib c n c1 n1 \<and> conn c1 = Some cn
          \<and> call_GetUPSList lib cn n1 = (Inr upsList, n2)
          \<and> find_target (upsName c1) upsList = Some target
          \<and> call_GetVariables lib target n2 = (Inl err, n3)"
    using Poll_retrieve_fails[of lib c n c1 n1 cn upsList n2 target err n3] that by simp
  show "Poll lib c n = (Inr (map (to_Variable lib) nutVars), c1, n3)" "\<not> stale c1"
    if "reconnected lib c n c1 n1 \<and> conn c1 = Some cn
          \<and> call_GetUPSList lib cn n1 = (Inr upsList, n2)
          \<and> find_target (upsName c1) upsList = Some target
          \<and> call_GetVariables lib target n2 = (Inr nutVars, n3)"
    using Poll_retrieves[of lib c n c1 n1 cn upsList n2 target nutVars n3]
      reconnected_fresh(1)[of lib c n c1 n1] that by simp_all
qed

theorem Poll_staleness_machine_witness:
  "Poll scripted_lib (sample_client True ''cyberpower'') \<lparr> outside = [True, False], calls = [] \<rparr>
     = (Inl (ListingUPS (External ''connection lost'')),
        sample_client True ''cyberpower'',
        \<lparr> outside = [], calls = [Call_Connect, Call_GetUPSList] \<rparr>)
   \<and> stale (sample_client True ''cyberpower'')
   \<and> is_fetch_failure (Inl (ListingUPS (External ''connection lost'')) :: error + Variable list)
   \<and> new_calls \<lparr> outside = [True, False], calls = [] \<rparr>
        \<lparr> outside = ([] :: bool list), calls = [Call_Connect, Call_GetUPSList] \<rparr>
      = [Call_Connect, Call_GetUPSList]
   \<and> reconnected scripted_lib (sample_client True ''cyberpower'')
        \<lparr> outside = [True, True, False], calls = [] \<rparr>
        (sample_client False ''cyberpower'') \<lparr> outside = [True, False], calls = [Call_Connect] \<rparr>
   \<and> call_GetUPSList scripted_lib () \<lparr> outside = [True, False], calls = [Call_Connect] \<rparr>
      = (Inr [\<lparr> ups_Name = ''cyberpower'', ups_client = () \<rparr>],
         \<lparr> outside = [False], calls = [Call_Connect, Call_GetUPSList] \<rparr>)
   \<and> call_GetVariables scripted_lib \<lparr> ups_Name = ''cyberpower'', ups_client = () \<rparr>
        \<lparr> outside = [False], calls = [Call_Connect, Call_GetUPSList] \<rparr>
      = (Inl (External ''connection lost''),
         \<lparr> outside = [], calls = [Call_Connect, Call_GetUPSList, Call_GetVariables] \<rparr>)
   \<and> Poll scripted_lib (sample_client True ''cyberpower'')
        \<lparr> outside = [True, True, False], calls = [] \<rparr>
      = (Inl (GettingVariables ''cyberpower'' (External ''connection lost'')),
         sample_client True ''cyberpower'',
         \<lparr> outside = [], calls = [Call_Connect, Call_GetUPSList, Call_GetVariables] \<rparr>)"
proof -
  have run: "Poll scripted_lib (sample_client True ''cyberpower'')
        \<lparr> outside = [True, False], calls = [] \<rparr>
     = (Inl (ListingUPS (External ''connection lost'')),
        sample_client True ''cyberpower'',
        \<lparr> outside = [], calls = [Call_Connect, Call_GetUPSList] \<rparr>)"
    by (simp add: client_defs scripted_lib_def sample_client_def)
  have run2: "Poll scripted_lib (sample_client True ''cyberpower'')
        \<lparr> outside = [True, True, False], calls = [] \<rparr>
      = (Inl (GettingVariables ''cyberpower'' (External ''connection lost'')),
         sample_client True ''cyberpower'',
         \<lparr> outside = [], calls = [Call_Connect, Call_GetUPSList, Call_GetVariables] \<rparr>)"
    by (simp add: client_defs scripted_lib_def sample_client_def)
  have rc: "reconnected scripted_lib (sample_client True ''cyberpower'')
        \<lparr> outside = [True, True, False], calls = [] \<rparr>
        (sample_client False ''cyberpower'') \<lparr> outside = [True, False], calls = [Call_Connect] \<rparr>"
    by (simp add: reconnected_def client_defs scripted_lib_def sample_client_def)
  have cn: "conn (sample_client False ''cyberpower'') = Some ()"
    "upsName (sample_client False ''cyberpower'') = ''cyberpower''"
    "(sample_client False ''cyberpower'')\<lparr> stale := True \<rparr> = sample_client True ''cyberpower''"
    by (simp_all add: sample_client_def)
  have li: "call_GetUPSList scripted_lib () \<lparr> outside = [True, False], calls = [Call_Connect] \<rparr>
      = (Inr [\<lparr> ups_Name = ''cyberpower'', ups_client = () \<rparr>],
         \<lparr> outside = [False], calls = [Call_Connect, Call_GetUPSList] \<rparr>)"
    by (simp add: call_GetUPSList_def scripted_lib_def)
  have ft: "find_target (upsName (sample_client False ''cyberpower''))
        [\<lparr> ups_Name = ''cyberpower'', ups_client = () \<rparr>]
      = Some \<lparr> ups_Name = ''cyberpower'', ups_client = () \<rparr>"
    by (simp add: sample_client_def)
  have gv: "call_GetVariables scripted_lib \<lparr> ups_Name = ''cyberpower'', ups_client = () \<rparr>
        \<lparr> outside = [False], calls = [Call_Connect, Call_GetUPSList] \<rparr>
      = (Inl (External ''connection lost''),
         \<lparr> outside = [], calls = [Call_Connect, Call_GetUPSList, Call_GetVariables] \<rparr>)"
    by (simp add: call_GetVariables_def scripted_lib_def)
  from Poll_staleness_machine[where ?c1.0 = "sample_client False ''cyberpower''" and cn = "()"
        and ?n1.0 = "\<lparr> outside = [True, False], calls = [Call_Connect] \<rparr>"
        and upsList = "[\<lparr> ups_Name = ''cyberpower'', ups_client = () \<rparr>]"
        and ?n2.0 = "\<lparr> outside = [False], calls = [Call_Connect, Call_GetUPSList] \<rparr>"
        and target = "\<lparr> ups_Name = ''cyberpower'', ups_client = () \<rparr>", OF run2]
    rc cn(1) li ft gv
  have "Poll scripted_lib (sample_client True ''cyberpower'')
        \<lparr> outside = [True, True, False], calls = [] \<rparr>
      = (Inl (GettingVariables (upsName (sample_client False ''cyberpower''))
               (External ''connection lost'')),
         (sample_client False ''cyberpower'')\<lparr> stale := True \<rparr>,
         \<lparr> outside = [], calls = [Call_Connect, Call_GetUPSList, Call_GetVariables] \<rparr>)"
    by blast
  then have p2: "Poll scripted_lib (sample_client True ''cyberpower'')
        \<lparr> outside = [True, True, False], calls = [] \<rparr>
      = (Inl (GettingVariables ''cyberpower'' (External ''connection lost'')),
         sample_client True ''cyberpower'',
         \<lparr> outside = [], calls = [Call_Connect, Call_GetUPSList, Call_GetVariables] \<rparr>)"
    unfolding cn .
  from Poll_staleness_machine[OF run]
  have st: "stale (sample_client True ''cyberpower'')" by simp
  have nc: "new_calls \<lparr> outside = [True, False], calls = [] \<rparr>
        \<lparr> outside = ([] :: bool list), calls = [Call_Connect, Call_GetUPSList] \<rparr>
      = [Call_Connect, Call_GetUPSList]" by (simp add: new_calls_def)
  from run st nc rc li gv p2 show ?thesis by simp
qed

text \<open>
  Claim C10. When \<open>Poll\<close> fails because the configured UPS is not in the list, the client
  is not stale afterwards; a client that was not stale is left exactly as it was, and the
  next \<open>Poll\<close> makes no call to connect. A failure of the list step or of the retrieve step
  does leave the client stale.
\<close>

theorem target_not_found_keeps_session:
  "(Poll lib c n = (Inl (UPSNotFound nm), c', n') \<longrightarrow>
      nm = upsName c \<and> \<not> stale c' \<and> (\<not> stale c \<longrightarrow> c' = c)
      \<and> Call_Connect \<notin> set (new_calls n' (snd (snd (Poll lib c' n')))))
   \<and> (Poll lib c n = (Inl (ListingUPS e), c', n') \<longrightarrow> stale c')
   \<and> (Poll lib c n = (Inl (GettingVariables nm e), c', n') \<longrightarrow> stale c')"
proof (intro conjI impI)
  assume nf: "Poll lib c n = (Inl (UPSNotFound nm), c', n')"
  from Poll_stale_after[OF nf] show fresh: "\<not> stale c'" by simp
  from nf show "nm = upsName c"
    by (auto simp: client_defs split: prod.splits sum.splits if_splits option.splits)
  show "c' = c" if "\<not> stale c"
    using Poll_fresh[OF that nf] by simp
  obtain r2 c2 n2 where nxt: "Poll lib c' n' = (r2, c2, n2)"
    by (cases "Poll lib c' n'") auto
  from Poll_fresh_no_connect[OF nxt fresh] nxt
  show "Call_Connect \<notin> set (new_calls n' (snd (snd (Poll lib c' n'))))" by simp
next
  assume "Poll lib c n = (Inl (ListingUPS e), c', n')"
  from Poll_stale_after[OF this] show "stale c'" by simp
next
  assume "Poll lib c n = (Inl (GettingVariables nm e), c', n')"
  from Poll_stale_after[OF this] show "stale c'" by simp
qed

theorem target_not_found_keeps_session_witness:
  "Poll scripted_lib (sample_client False ''other'') \<lparr> outside = [True, True], calls = [] \<rparr>
     = (Inl (UPSNotFound ''other''), sample_client False ''other'',
        \<lparr> outside = [True], calls = [Call_GetUPSList] \<rparr>)
   \<and> \<not> stale (sample_client False ''other'')
   \<and> Call_Connect \<notin> set (new_calls \<lparr> outside = [True], calls = [Call_GetUPSList] \<rparr>
        (snd (snd (Poll scripted_lib (sample_client False ''other'')
           \<lparr> outside = [True], calls = [Call_GetUPSList] \<rparr>))))"
proof -
  have run: "Poll scripted_lib (sample_client False ''other'')
        \<lparr> outside = [True, True], calls = [] \<rparr>
     = (Inl (UPSNotFound ''other''), sample_client False ''other'',
        \<lparr> outside = [True], calls = [Call_GetUPSList] \<rparr>)"
    by (simp add: client_defs scripted_lib_def sample_client_def)
  from target_not_found_keeps_session[of scripted_lib "sample_client False ''other''"
      "\<lparr> outside = [True, True], calls = [] \<rparr>" "''other''" "sample_client False ''other''"
      "\<lparr> outside = [True], calls = [Call_GetUPSList] \<rparr>"] run
  show ?thesis by (simp add: sample_client_def)
qed

section \<open>One cycle\<close>

lemma first_failure_append:
  "first_failure (a @ b) = (case first_failure a of None \<Rightarrow> first_failure b | Some e \<Rightarrow> Some e)"
  by (induction a rule: first_failure.induct) auto

lemma ends_at_failure_append:
  "ends_at_failure a \<Longrightarrow> first_failure a = None \<Longrightarrow> ends_at_failure b \<Longrightarrow> ends_at_failure (a @ b)"
  by (induction a rule: ends_at_failure.induct) auto

lemma replay_append: "replay pub (a @ b) s = replay pub b (replay pub a s)"
  by (induction pub a s rule: replay.induct) auto

lemma publishes_refl: "publishes pub w w []"
  by (simp add: publishes_def)

lemma publishes_trans:
  assumes "publishes pub w w1 a" and "first_failure a = None" and "publishes pub w1 w2 b"
  shows "publishes pub w w2 (a @ b)"
  using assms by (auto simp: publishes_def ends_at_failure_append replay_append)

lemma call_Publish_publishes:
  assumes "call_Publish pub msg w = (r, w')"
  shows "publishes pub w w' [Published msg r]"
proof -
  have "ends_at_failure [Published msg r]" by (cases r) auto
  with assms show ?thesis
    by (auto simp: call_Publish_def publishes_def split: prod.splits)
qed

lemma publish_vars_publishes:
  assumes "publish_vars cfg pub xs w = (r, w')"
  shows "\<exists>evs. publishes pub w w' evs \<and> first_failure evs = r"
  using assms
proof (induction xs arbitrary: w)
  case Nil
  then show ?case using publishes_refl[of pub w] by auto
next
  case (Cons x xs)
  obtain name val where x: "x = (name, val)" by (cases x)
  let ?msg = "\<lparr> Topic = cfg_Prefix cfg @ ''/'' @ cfg_UPSName cfg @ ''/''
                    @ replaceAll_char name CHR ''.'' CHR ''/'', Payload = val, Retained = cfg_Retained cfg \<rparr>"
  obtain r1 w1 where c: "call_Publish pub ?msg w = (r1, w1)" by (cases "call_Publish pub ?msg w")
  note p1 = call_Publish_publishes[OF c]
  show ?case
  proof (cases r1)
    case None
    with Cons.prems x c have "publish_vars cfg pub xs w1 = (r, w')" by simp
    from Cons.IH[OF this] obtain evs where e: "publishes pub w1 w' evs" "first_failure evs = r" by blast
    from publishes_trans[OF p1 _ e(1)] None have "publishes pub w w' ([Published ?msg r1] @ evs)" by simp
    moreover have "first_failure ([Published ?msg r1] @ evs) = r" using None e(2) by simp
    ultimately show ?thesis by blast
  next
    case (Some e)
    with Cons.prems x c have "r = Some e" "w' = w1" by simp_all
    with p1 Some show ?thesis by (intro exI[of _ "[Published ?msg r1]"]) simp
  qed
qed

lemma publish_computed_publishes:
  assumes "publish_computed cfg pub xs w = (r, w')"
  shows "\<exists>evs. publishes pub w w' evs \<and> first_failure evs = r"
  using assms
proof (induction xs arbitrary: w)
  case Nil
  then show ?case using publishes_refl[of pub w] by auto
next
  case (Cons x xs)
  obtain name val where x: "x = (name, val)" by (cases x)
  let ?msg = "\<lparr> Topic = cfg_Prefix cfg @ ''/'' @ cfg_UPSName cfg @ ''/computed/'' @ name,
                 Payload = val, Retained = cfg_Retained cfg \<rparr>"
  obtain r1 w1 where c: "call_Publish pub ?msg w = (r1, w1)" by (cases "call_Publish pub ?msg w")
  note p1 = call_Publish_publishes[OF c]
  show ?case
  proof (cases r1)
    case None
    with Cons.prems x c have "publish_computed cfg pub xs w1 = (r, w')" by simp
    from Cons.IH[OF this] obtain evs where e: "publishes pub w1 w' evs" "first_failure evs = r" by blast
    from publishes_trans[OF p1 _ e(1)] None have "publishes pub w w' ([Published ?msg r1] @ evs)" by simp
    moreover have "first_failure ([Published ?msg r1] @ evs) = r" using None e(2) by simp
    ultimately show ?thesis by blast
  next
    case (Some e)
    with Cons.prems x c have "r = Some e" "w' = w1" by simp_all
    with p1 Some show ?thesis by (intro exI[of _ "[Published ?msg r1]"]) simp
  qed
qed

lemma publishState_publishes:
  assumes "publishState rt now vs m cfg pub w = (r, w')"
  shows "\<exists>evs. publishes pub w w' evs
           \<and> (\<forall>e. first_failure evs = Some e \<longrightarrow> r = Some e)
           \<and> (r = None \<longrightarrow> (\<exists>payload.
                 json_Marshal rt (StateMessage_json
                   \<lparr> Timestamp = now, UPSName = cfg_UPSName cfg, Variables = vs, Computed = m \<rparr>)
                   = Inr payload
                 \<and> evs = [Published \<lparr> Topic = StateTopic (cfg_Prefix cfg) (cfg_UPSName cfg),
                      Payload = payload, Retained = cfg_Retained cfg \<rparr> None]))"
proof (cases "json_Marshal rt (StateMessage_json
          \<lparr> Timestamp = now, UPSName = cfg_UPSName cfg, Variables = vs, Computed = m \<rparr>)")
  case (Inl err)
  with assms have "w' = w" "r = Some (MarshallingState err)" by (simp_all add: publishState_def)
  then show ?thesis using publishes_refl[of pub w] by (intro exI[of _ "[]"]) simp
next
  case (Inr payload)
  let ?msg = "\<lparr> Topic = StateTopic (cfg_Prefix cfg) (cfg_UPSName cfg),
                      Payload = payload, Retained = cfg_Retained cfg \<rparr>"
  from Inr assms have c: "call_Publish pub ?msg w = (r, w')" by (simp add: publishState_def)
  from call_Publish_publishes[OF c] Inr show ?thesis
    by (intro exI[of _ "[Published ?msg r]"]) (cases r; simp)
qed


lemma PublishAll_publishes:
  assumes "PublishAll rt now vs m cfg pub w = (r, w')"
  shows "\<exists>evs. publishes pub w w' evs
           \<and> (\<forall>e. first_failure evs = Some e \<longrightarrow> r = Some e)
           \<and> (r = None \<longrightarrow> first_failure evs = None \<and> (\<exists>pre payload.
                 json_Marshal rt (StateMessage_json
                   \<lparr> Timestamp = now, UPSName = cfg_UPSName cfg, Variables = vs, Computed = m \<rparr>)
                   = Inr payload
                 \<and> evs = pre @ [Published \<lparr> Topic = StateTopic (cfg_Prefix cfg) (cfg_UPSName cfg),
                      Payload = payload, Retained = cfg_Retained cfg \<rparr> None]))"
proof -
  obtain r1 w1 where s1: "publish_vars cfg pub (range_map rt vs) w = (r1, w1)"
    by (cases "publish_vars cfg pub (range_map rt vs) w")
  from publish_vars_publishes[OF s1] obtain a where
    a: "publishes pub w w1 a" "first_failure a = r1" by blast
  show ?thesis
  proof (cases r1)
    case (Some e)
    with s1 assms have "r = Some e" "w' = w1" by (simp_all add: PublishAll_def)
    with a Some show ?thesis by (intro exI[of _ a]) simp
  next
    case None
    note n1 = this
    obtain r2 w2 where s2: "publish_computed cfg pub (range_map rt (AsTopicMap m)) w1 = (r2, w2)"
      by (cases "publish_computed cfg pub (range_map rt (AsTopicMap m)) w1")
    from publish_computed_publishes[OF s2] obtain b where
      b: "publishes pub w1 w2 b" "first_failure b = r2" by blast
    from publishes_trans[OF a(1) _ b(1)] a(2) n1 have ab: "publishes pub w w2 (a @ b)" by simp
    have fab: "first_failure (a @ b) = r2"
      using a(2) b(2) n1 by (simp add: first_failure_append)
    show ?thesis
    proof (cases r2)
      case (Some e)
      with s1 s2 n1 assms have "r = Some e" "w' = w2" by (simp_all add: PublishAll_def)
      with ab fab Some show ?thesis by (intro exI[of _ "a @ b"]) simp
    next
      case None
      with s1 s2 n1 assms have s3: "publishState rt now vs m cfg pub w2 = (r, w')"
        by (simp add: PublishAll_def)
      from publishState_publishes[OF s3] obtain c where
        c: "publishes pub w2 w' c" "\<forall>e. first_failure c = Some e \<longrightarrow> r = Some e"
           "r = None \<longrightarrow> (\<exists>payload.
                 json_Marshal rt (StateMessage_json
                   \<lparr> Timestamp = now, UPSName = cfg_UPSName cfg, Variables = vs, Computed = m \<rparr>)
                   = Inr payload
                 \<and> c = [Published \<lparr> Topic = StateTopic (cfg_Prefix cfg) (cfg_UPSName cfg),
                      Payload = payload, Retained = cfg_Retained cfg \<rparr> None])"
        by blast
      from publishes_trans[OF ab _ c(1)] fab None
      have abc: "publishes pub w w' ((a @ b) @ c)" by simp
      have f: "first_failure ((a @ b) @ c) = first_failure c"
        using fab None by (simp add: first_failure_append del: append_assoc)
      show ?thesis
      proof (rule exI[of _ "(a @ b) @ c"], intro conjI allI impI)
        show "publishes pub w w' ((a @ b) @ c)" by (rule abc)
        show "r = Some e" if "first_failure ((a @ b) @ c) = Some e" for e
          using that f c(2) by metis
        show "first_failure ((a @ b) @ c) = None" if "r = None"
          using that f c(3) by auto
        show "\<exists>pre payload.
                 json_Marshal rt (StateMessage_json
                   \<lparr> Timestamp = now, UPSName = cfg_UPSName cfg, Variables = vs, Computed = m \<rparr>)
                   = Inr payload
                 \<and> (a @ b) @ c = pre @ [Published \<lparr> Topic = StateTopic (cfg_Prefix cfg) (cfg_UPSName cfg),
                      Payload = payload, Retained = cfg_Retained cfg \<rparr> None]" if "r = None"
          using that c(3) by blast
      qed
    qed
  qed
qed

lemma doPoll_fetch_failed:
  assumes "P (poller w) = (Inl e, p)"
  shows "doPoll rt now P pub cfg w
           = (Some (PollingNUT e), w\<lparr> poller := p, trace := trace w @ [Polled (Inl e)] \<rparr>)"
  using assms by (simp add: doPoll_def call_Poll_def)

lemma doPoll_fetched:
  assumes "P (poller w) = (Inr vs, p)" and "doPoll rt now P pub cfg w = (r, w')"
  shows "\<exists>evs. trace w' = trace w @ Polled (Inr vs) # evs
           \<and> list_all is_publish evs \<and> ends_at_failure evs
           \<and> sink w' = replay pub evs (sink w) \<and> poller w' = p
           \<and> (\<forall>e. first_failure evs = Some e \<longrightarrow> r = Some (Publishing e))
           \<and> (r = None \<longrightarrow> first_failure evs = None \<and> (\<exists>pre payload.
                 json_Marshal rt (StateMessage_json
                   \<lparr> Timestamp = now, UPSName = NUT_UPSName (NUT cfg),
                     Variables = VarsToMap vs,
                     Computed = Compute (ParseFloat rt) (VarsToMap vs) \<rparr>) = Inr payload
                 \<and> evs = pre @ [Published
                      \<lparr> Topic = StateTopic (MQTT_TopicPrefix (MQTT cfg)) (NUT_UPSName (NUT cfg)),
                        Payload = payload, Retained = MQTT_Retained (MQTT cfg) \<rparr> None]))"
proof -
  let ?w1 = "w\<lparr> poller := p, trace := trace w @ [Polled (Inr vs)] \<rparr>"
  let ?m = "Compute (ParseFloat rt) (VarsToMap vs)"
  obtain r1 w2 where pa: "PublishAll rt now (VarsToMap vs) ?m (pubCfg_of cfg) pub ?w1 = (r1, w2)"
    by (cases "PublishAll rt now (VarsToMap vs) ?m (pubCfg_of cfg) pub ?w1")
  from assms pa have res: "w' = w2" "r = map_option Publishing r1"
    by (auto simp: doPoll_def call_Poll_def pubCfg_of_def Let_def split: option.splits)
  from PublishAll_publishes[OF pa] obtain evs where
    e: "publishes pub ?w1 w2 evs" "\<forall>e. first_failure evs = Some e \<longrightarrow> r1 = Some e"
       "r1 = None \<longrightarrow> first_failure evs = None \<and> (\<exists>pre payload.
                 json_Marshal rt (StateMessage_json
                   \<lparr> Timestamp = now, UPSName = cfg_UPSName (pubCfg_of cfg),
                     Variables = VarsToMap vs, Computed = ?m \<rparr>) = Inr payload
                 \<and> evs = pre @ [Published
                      \<lparr> Topic = StateTopic (cfg_Prefix (pubCfg_of cfg)) (cfg_UPSName (pubCfg_of cfg)),
                        Payload = payload, Retained = cfg_Retained (pubCfg_of cfg) \<rparr> None])"
    by blast
  show ?thesis
  proof (rule exI[of _ evs], intro conjI allI impI)
    show "trace w' = trace w @ Polled (Inr vs) # evs"
      using e(1) res by (simp add: publishes_def)
    show "list_all is_publish evs" "ends_at_failure evs"
      using e(1) by (simp_all add: publishes_def)
    show "sink w' = replay pub evs (sink w)" "poller w' = p"
      using e(1) res by (simp_all add: publishes_def)
    show "r = Some (Publishing e')" if "first_failure evs = Some e'" for e'
      using that e(2) res by simp
    show "first_failure evs = None" if "r = None"
      using that e(3) res by simp
    show "\<exists>pre payload.
                 json_Marshal rt (StateMessage_json
                   \<lparr> Timestamp = now, UPSName = NUT_UPSName (NUT cfg),
                     Variables = VarsToMap vs,
                     Computed = Compute (ParseFloat rt) (VarsToMap vs) \<rparr>) = Inr payload
                 \<and> evs = pre @ [Published
                      \<lparr> Topic = StateTopic (MQTT_TopicPrefix (MQTT cfg)) (NUT_UPSName (NUT cfg)),
                        Payload = payload, Retained = MQTT_Retained (MQTT cfg) \<rparr> None]" if "r = None"
      using that e(3) res by (simp add: pubCfg_of_def)
  qed
qed

text \<open>
  Claim C4. For every cycle. If the fetch fails, the cycle makes no \<open>Publish\<close> call, leaves
  the publisher as it was and returns the failure. If the fetch succeeds, the cycle makes
  \<open>Publish\<close> calls one after the other and stops at the first one that fails: no call
  follows it, the publisher keeps the state the calls made so far have given it, and the
  failure is returned. Whatever the result, the loop goes on to the next tick from the
  world the cycle has left.
\<close>

theorem cycle_aborts_at_first_failure:
  assumes "doPoll rt now P pub cfg w = (r, w')"
  shows "trace w' = trace w @ new_events w w'
    \<and> (\<forall>e p. P (poller w) = (Inl e, p) \<longrightarrow>
          r = Some (PollingNUT e) \<and> new_events w w' = [Polled (Inl e)] \<and> sink w' = sink w)
    \<and> (\<forall>vs p. P (poller w) = (Inr vs, p) \<longrightarrow>
          (\<exists>evs. new_events w w' = Polled (Inr vs) # evs
             \<and> list_all is_publish evs \<and> ends_at_failure evs
             \<and> sink w' = replay pub evs (sink w)
             \<and> (\<forall>e. first_failure evs = Some e \<longrightarrow> r = Some (Publishing e))
             \<and> (r = None \<longrightarrow> first_failure evs = None)))
    \<and> poll_ticks rt (\<lambda>i. now) P pub cfg i (Suc n) w = poll_ticks rt (\<lambda>i. now) P pub cfg (Suc i) n w'"
proof (intro conjI allI impI)
  show "poll_ticks rt (\<lambda>i. now) P pub cfg i (Suc n) w = poll_ticks rt (\<lambda>i. now) P pub cfg (Suc i) n w'"
    using assms by simp
  show "r = Some (PollingNUT e)" "new_events w w' = [Polled (Inl e)]" "sink w' = sink w"
    if "P (poller w) = (Inl e, p)" for e p
    using doPoll_fetch_failed[of P w e p rt now pub cfg] that assms by (simp_all add: new_events_def)
  show "\<exists>evs. new_events w w' = Polled (Inr vs) # evs
             \<and> list_all is_publish evs \<and> ends_at_failure evs
             \<and> sink w' = replay pub evs (sink w)
             \<and> (\<forall>e. first_failure evs = Some e \<longrightarrow> r = Some (Publishing e))
             \<and> (r = None \<longrightarrow> first_failure evs = None)"
    if "P (poller w) = (Inr vs, p)" for vs p
    using doPoll_fetched[OF that assms] by (auto simp: new_events_def)
  show "trace w' = trace w @ new_events w w'"
  proof (cases "P (poller w)")
    case (Pair res p)
    then show ?thesis
    proof (cases res)
      case (Inl e)
      with Pair doPoll_fetch_failed[of P w e p rt now pub cfg] assms show ?thesis
        by (simp add: new_events_def)
    next
      case (Inr vs)
      with Pair doPoll_fetched[of P w vs p rt now pub cfg r w'] assms show ?thesis
        by (auto simp: new_events_def)
    qed
  qed
qed


lemma f64_0: "f64 0 = Fin False 0"
  by (simp add: f64_def rnd64_def)

lemmas sample_defs = sample_runtime_def sample_cfg_def sample_poller_def sample_keys_def
  sample_ParseFloat_def FakePoller_Poll_def FakePublisher_Publish_def limited_Publish_def


lemmas run_defs = doPoll_def call_Poll_def call_Publish_def VarsToMap_def PublishAll_def
  publishState_def replaceAll_char_def new_events_def Let_def

theorem cycle_aborts_at_first_failure_witness:
  "doPoll sample_runtime ''2026-01-01T00:00:00Z'' FakePoller_Poll limited_Publish sample_cfg
        \<lparr> poller = sample_poller, sink = 1, trace = [] \<rparr>
    = (Some (Publishing (External ''broker down'')),
       \<lparr> poller = sample_poller\<lparr> fk_CallCount := 1 \<rparr>, sink = 0,
         trace = [Polled (Inr (fk_Variables sample_poller)),
                  Published \<lparr> Topic = ''ups/cyberpower/ups/status'', Payload = ''OL'',
                              Retained = True \<rparr> None,
                  Published \<lparr> Topic = ''ups/cyberpower/input/voltage'', Payload = ''0'',
                              Retained = True \<rparr> (Some (External ''broker down''))] \<rparr>)
   \<and> FakePoller_Poll sample_poller
        = (Inr (fk_Variables sample_poller), sample_poller\<lparr> fk_CallCount := 1 \<rparr>)
   \<and> first_failure
         [Published \<lparr> Topic = ''ups/cyberpower/ups/status'', Payload = ''OL'',
                      Retained = True \<rparr> None,
          Published \<lparr> Topic = ''ups/cyberpower/input/voltage'', Payload = ''0'',
                      Retained = True \<rparr> (Some (External ''broker down''))]
        = Some (External ''broker down'')"
proof -
  have run: "doPoll sample_runtime ''2026-01-01T00:00:00Z'' FakePoller_Poll limited_Publish sample_cfg
        \<lparr> poller = sample_poller, sink = 1, trace = [] \<rparr>
    = (Some (Publishing (External ''broker down'')),
       \<lparr> poller = sample_poller\<lparr> fk_CallCount := 1 \<rparr>, sink = 0,
         trace = [Polled (Inr (fk_Variables sample_poller)),
                  Published \<lparr> Topic = ''ups/cyberpower/ups/status'', Payload = ''OL'',
                              Retained = True \<rparr> None,
                  Published \<lparr> Topic = ''ups/cyberpower/input/voltage'', Payload = ''0'',
                              Retained = True \<rparr> (Some (External ''broker down''))] \<rparr>)"
    by (simp add: run_defs sample_defs)
  from cycle_aborts_at_first_failure[OF run] run show ?thesis
    by (simp add: sample_defs)
qed


lemma doPoll_events:
  assumes "doPoll rt now P pub cfg w = (r, w')"
  shows "\<exists>res rest. trace w' = trace w @ Polled res # rest \<and> list_all is_publish rest
           \<and> res = fst (P (poller w))"
proof (cases "P (poller w)")
  case (Pair res p)
  show ?thesis
  proof (cases res)
    case (Inl e)
    with Pair doPoll_fetch_failed[of P w e p rt now pub cfg] assms show ?thesis by auto
  next
    case (Inr vs)
    with Pair doPoll_fetched[of P w vs p rt now pub cfg r w'] assms show ?thesis by auto
  qed
qed

lemma doPoll_succeeded:
  assumes "doPoll rt now P pub cfg w = (None, w')"
  shows "\<exists>vs pre payload. fst (P (poller w)) = Inr vs
           \<and> trace w' = trace w @ Polled (Inr vs) # pre @ [Published
                \<lparr> Topic = StateTopic (MQTT_TopicPrefix (MQTT cfg)) (NUT_UPSName (NUT cfg)),
                  Payload = payload, Retained = MQTT_Retained (MQTT cfg) \<rparr> None]
           \<and> list_all is_publish pre \<and> first_failure pre = None
           \<and> json_Marshal rt (StateMessage_json
                \<lparr> Timestamp = now, UPSName = NUT_UPSName (NUT cfg),
                  Variables = VarsToMap vs,
                  Computed = Compute (ParseFloat rt) (VarsToMap vs) \<rparr>) = Inr payload"
proof (cases "P (poller w)")
  case (Pair res p)
  show ?thesis
  proof (cases res)
    case (Inl e)
    with Pair doPoll_fetch_failed[of P w e p rt now pub cfg] assms show ?thesis by auto
  next
    case (Inr vs)
    with Pair have pv: "P (poller w) = (Inr vs, p)" by simp
    from doPoll_fetched[OF pv assms] obtain evs pre payload where
      e: "trace w' = trace w @ Polled (Inr vs) # evs" "list_all is_publish evs"
         "first_failure evs = None"
         "json_Marshal rt (StateMessage_json
                \<lparr> Timestamp = now, UPSName = NUT_UPSName (NUT cfg),
                  Variables = VarsToMap vs,
                  Computed = Compute (ParseFloat rt) (VarsToMap vs) \<rparr>) = Inr payload"
         "evs = pre @ [Published
                \<lparr> Topic = StateTopic (MQTT_TopicPrefix (MQTT cfg)) (NUT_UPSName (NUT cfg)),
                  Payload = payload, Retained = MQTT_Retained (MQTT cfg) \<rparr> None]"
      by auto
    from e(2,3,5) have "list_all is_publish pre" "first_failure pre = None"
      by (simp_all add: first_failure_append split: option.splits)
    with e pv show ?thesis by auto
  qed
qed

section \<open>Shutdown\<close>

text \<open>
  Claim C1. After the loop, whatever the number of ticks before: the run makes exactly one
  more \<open>Poll\<close> call, the \<open>Publish\<close> calls of that final cycle, and then exactly one more
  \<open>Publish\<close> call, the offline announcement, retained and on the state topic, whether
  the final cycle has failed or not. When the final cycle has succeeded its last
  \<open>Publish\<close> call is the state message, accepted, so the state message comes strictly
  before the offline announcement.
\<close>

theorem shutdown_order:
  assumes "main_after_connect rt clock now_off P pub cfg n w = (err1, err2, w')"
  shows "\<exists>res cycle.
      trace w' = trace (poll_ticks rt clock P pub cfg 0 n w) @ Polled res # cycle
        @ [Published \<lparr> Topic = StateTopic (MQTT_TopicPrefix (MQTT cfg)) (NUT_UPSName (NUT cfg)),
                       Payload = FormatOffline rt now_off, Retained = True \<rparr> err2]
      \<and> list_all is_publish cycle
      \<and> doPoll rt (clock n) P pub cfg (poll_ticks rt clock P pub cfg 0 n w)
          = (err1, w'\<lparr> sink := sink (snd (doPoll rt (clock n) P pub cfg (poll_ticks rt clock P pub cfg 0 n w))),
                       trace := trace (poll_ticks rt clock P pub cfg 0 n w) @ Polled res # cycle \<rparr>)
      \<and> (err1 = None \<longrightarrow>
            (\<exists>vs pre payload. res = Inr vs
               \<and> cycle = pre @ [Published
                    \<lparr> Topic = StateTopic (MQTT_TopicPrefix (MQTT cfg)) (NUT_UPSName (NUT cfg)),
                      Payload = payload, Retained = MQTT_Retained (MQTT cfg) \<rparr> None]
               \<and> json_Marshal rt (StateMessage_json
                    \<lparr> Timestamp = clock n, UPSName = NUT_UPSName (NUT cfg),
                      Variables = VarsToMap vs,
                      Computed = Compute (ParseFloat rt) (VarsToMap vs) \<rparr>) = Inr payload))"
proof -
  let ?w0 = "poll_ticks rt clock P pub cfg 0 n w"
  let ?off = "\<lparr> Topic = StateTopic (MQTT_TopicPrefix (MQTT cfg)) (NUT_UPSName (NUT cfg)),
                       Payload = FormatOffline rt now_off, Retained = True \<rparr>"
  obtain r1 w1 where d: "doPoll rt (clock n) P pub cfg ?w0 = (r1, w1)"
    by (cases "doPoll rt (clock n) P pub cfg ?w0")
  obtain r2 w2 where p: "call_Publish pub ?off w1 = (r2, w2)"
    by (cases "call_Publish pub ?off w1")
  from assms d p have res: "err1 = r1" "err2 = r2" "w' = w2"
    by (simp_all add: main_after_connect_def shutdown_def Let_def)
  from p have w2: "w2 = w1\<lparr> sink := snd (pub ?off (sink w1)), trace := trace w1 @ [Published ?off r2] \<rparr>"
    by (auto simp: call_Publish_def split: prod.splits)
  from doPoll_events[OF d] obtain res' rest where
    ev: "trace w1 = trace ?w0 @ Polled res' # rest" "list_all is_publish rest"
        "res' = fst (P (poller ?w0))" by blast
  show ?thesis
  proof (rule exI[of _ res'], rule exI[of _ rest], intro conjI impI)
    show "trace w' = trace ?w0 @ Polled res' # rest @ [Published ?off err2]"
      using res w2 ev by simp
    show "list_all is_publish rest" by (rule ev(2))
    show "doPoll rt (clock n) P pub cfg ?w0
          = (err1, w'\<lparr> sink := sink (snd (doPoll rt (clock n) P pub cfg ?w0)),
                       trace := trace ?w0 @ Polled res' # rest \<rparr>)"
      using res w2 ev d by simp
    show "\<exists>vs pre payload. res' = Inr vs
               \<and> rest = pre @ [Published
                    \<lparr> Topic = StateTopic (MQTT_TopicPrefix (MQTT cfg)) (NUT_UPSName (NUT cfg)),
                      Payload = payload, Retained = MQTT_Retained (MQTT cfg) \<rparr> None]
               \<and> json_Marshal rt (StateMessage_json
                    \<lparr> Timestamp = clock n, UPSName = NUT_UPSName (NUT cfg),
                      Variables = VarsToMap vs,
                      Computed = Compute (ParseFloat rt) (VarsToMap vs) \<rparr>) = Inr payload"
      if "err1 = None"
    proof -
      from that res d have "doPoll rt (clock n) P pub cfg ?w0 = (None, w1)" by simp
      from doPoll_succeeded[OF this] ev show ?thesis by auto
    qed
  qed
qed


lemma formatFloat_zero: "formatFloat (Fin False 0) = ''0''"
  by (simp add: formatFloat_def)


lemma sample_Compute:
  "Compute sample_ParseFloat [''ups.status'' \<mapsto> ''OL'', ''input.voltage'' \<mapsto> ''0'']
     = \<lparr> LoadWatts = Fin False 0, BatteryRuntimeMins = Fin False 0,
         BatteryRuntimeHours = Fin False 0, OnBattery = False, LowBattery = False,
         StatusDisplay = ''Online'', InputVoltageDeviationPct = Fin False 0 \<rparr>"
  by (simp add: Compute_def computeLoadWatts_def computeBatteryRuntimeMins_def
        computeBatteryRuntimeHours_def computeInputVoltageDeviationPct_def parseFloat_def
        lookup_def f64_0 hasStatusToken_def strings_Fields_def asciiSpace_def
        computeStatusDisplay_def statusTokens_def statusTokens_table_def sample_ParseFloat_def)

theorem shutdown_order_witness:
  "main_after_connect sample_runtime (\<lambda>i. ''2026-01-01T00:00:00Z'') ''2026-01-01T00:00:05Z''
         FakePoller_Poll FakePublisher_Publish sample_cfg 0 sample_world
   = (None, None,
      \<lparr> poller = sample_poller\<lparr> fk_CallCount := 1 \<rparr>,
        sink = \<lparr> Messages =
          [\<lparr> Topic = ''ups/cyberpower/ups/status'', Payload = ''OL'', Retained = True \<rparr>,
           \<lparr> Topic = ''ups/cyberpower/input/voltage'', Payload = ''0'', Retained = True \<rparr>,
           \<lparr> Topic = ''ups/cyberpower/computed/load_watts'', Payload = ''0'', Retained = True \<rparr>,
           \<lparr> Topic = ''ups/cyberpower/computed/battery_runtime_mins'', Payload = ''0'', Retained = True \<rparr>,
           \<lparr> Topic = ''ups/cyberpower/computed/battery_runtime_hours'', Payload = ''0'', Retained = True \<rparr>,
           \<lparr> Topic = ''ups/cyberpower/computed/on_battery'', Payload = ''false'', Retained = True \<rparr>,
           \<lparr> Topic = ''ups/cyberpower/computed/low_battery'', Payload = ''false'', Retained = True \<rparr>,
           \<lparr> Topic = ''ups/cyberpower/computed/status_display'', Payload = ''Online'', Retained = True \<rparr>,
           \<lparr> Topic = ''ups/cyberpower/computed/input_voltage_deviation_pct'', Payload = ''0'', Retained = True \<rparr>,
           \<lparr> Topic = ''ups/cyberpower/state'', Payload = ''timestamp,ups_name,variables,computed'', Retained = True \<rparr>,
           \<lparr> Topic = ''ups/cyberpower/state'', Payload = ''online,timestamp'', Retained = True \<rparr>],
          PublishError = None, pub_Closed = False \<rparr>,
        trace = Polled (Inr (fk_Variables sample_poller)) # map (\<lambda>m. Published m None)
          [\<lparr> Topic = ''ups/cyberpower/ups/status'', Payload = ''OL'', Retained = True \<rparr>,
           \<lparr> Topic = ''ups/cyberpower/input/voltage'', Payload = ''0'', Retained = True \<rparr>,
           \<lparr> Topic = ''ups/cyberpower/computed/load_watts'', Payload = ''0'', Retained = True \<rparr>,
           \<lparr> Topic = ''ups/cyberpower/computed/battery_runtime_mins'', Payload = ''0'', Retained = True \<rparr>,
           \<lparr> Topic = ''ups/cyberpower/computed/battery_runtime_hours'', Payload = ''0'', Retained = True \<rparr>,
           \<lparr> Topic = ''ups/cyberpower/computed/on_battery'', Payload = ''false'', Retained = True \<rparr>,
           \<lparr> Topic = ''ups/cyberpower/computed/low_battery'', Payload = ''false'', Retained = True \<rparr>,
           \<lparr> Topic = ''ups/cyberpower/computed/status_display'', Payload = ''Online'', Retained = True \<rparr>,
           \<lparr> Topic = ''ups/cyberpower/computed/input_voltage_deviation_pct'', Payload = ''0'', Retained = True \<rparr>,
           \<lparr> Topic = ''ups/cyberpower/state'', Payload = ''timestamp,ups_name,variables,computed'', Retained = True \<rparr>,
           \<lparr> Topic = ''ups/cyberpower/state'', Payload = ''online,timestamp'', Retained = True \<rparr>] \<rparr>)"
proof -
  have run: "main_after_connect sample_runtime (\<lambda>i. ''2026-01-01T00:00:00Z'') ''2026-01-01T00:00:05Z''
         FakePoller_Poll FakePublisher_Publish sample_cfg 0 sample_world
   = (None, None,
      \<lparr> poller = sample_poller\<lparr> fk_CallCount := 1 \<rparr>,
        sink = \<lparr> Messages =
          [\<lparr> Topic = ''ups/cyberpower/ups/status'', Payload = ''OL'', Retained = True \<rparr>,
           \<lparr> Topic = ''ups/cyberpower/input/voltage'', Payload = ''0'', Retained = True \<rparr>,
           \<lparr> Topic = ''ups/cyberpower/computed/load_watts'', Payload = ''0'', Retained = True \<rparr>,
           \<lparr> Topic = ''ups/cyberpower/computed/battery_runtime_mins'', Payload = ''0'', Retained = True \<rparr>,
           \<lparr> Topic = ''ups/cyberpower/computed/battery_runtime_hours'', Payload = ''0'', Retained = True \<rparr>,
           \<lparr> Topic = ''ups/cyberpower/computed/on_battery'', Payload = ''false'', Retained = True \<rparr>,
           \<lparr> Topic = ''ups/cyberpower/computed/low_battery'', Payload = ''false'', Retained = True \<rparr>,
           \<lparr> Topic = ''ups/cyberpower/computed/status_display'', Payload = ''Online'', Retained = True \<rparr>,
           \<lparr> Topic = ''ups/cyberpower/computed/input_voltage_deviation_pct'', Payload = ''0'', Retained = True \<rparr>,
           \<lparr> Topic = ''ups/cyberpower/state'', Payload = ''timestamp,ups_name,variables,computed'', Retained = True \<rparr>,
           \<lparr> Topic = ''ups/cyberpower/state'', Payload = ''online,timestamp'', Retained = True \<rparr>],
          PublishError = None, pub_Closed = False \<rparr>,
        trace = Polled (Inr (fk_Variables sample_poller)) # map (\<lambda>m. Published m None)
          [\<lparr> Topic = ''ups/cyberpower/ups/status'', Payload = ''OL'', Retained = True \<rparr>,
           \<lparr> Topic = ''ups/cyberpower/input/voltage'', Payload = ''0'', Retained = True \<rparr>,
           \<lparr> Topic = ''ups/cyberpower/computed/load_watts'', Payload = ''0'', Retained = True \<rparr>,
           \<lparr> Topic = ''ups/cyberpower/computed/battery_runtime_mins'', Payload = ''0'', Retained = True \<rparr>,
           \<lparr> Topic = ''ups/cyberpower/computed/battery_runtime_hours'', Payload = ''0'', Retained = True \<rparr>,
           \<lparr> Topic = ''ups/cyberpower/computed/on_battery'', Payload = ''false'', Retained = True \<rparr>,
           \<lparr> Topic = ''ups/cyberpower/computed/low_battery'', Payload = ''false'', Retained = True \<rparr>,
           \<lparr> Topic = ''ups/cyberpower/computed/status_display'', Payload = ''Online'', Retained = True \<rparr>,
           \<lparr> Topic = ''ups/cyberpower/computed/input_voltage_deviation_pct'', Payload = ''0'', Retained = True \<rparr>,
           \<lparr> Topic = ''ups/cyberpower/state'', Payload = ''timestamp,ups_name,variables,computed'', Retained = True \<rparr>,
           \<lparr> Topic = ''ups/cyberpower/state'', Payload = ''online,timestamp'', Retained = True \<rparr>] \<rparr>)"
    by (simp add: main_after_connect_def shutdown_def run_defs sample_defs sample_world_def
        sample_Compute AsTopicMap_def formatFloat_zero json_Marshal_def StateMessage_json_def
        Metrics_json_def FormatBool_def StateTopic_def FormatOffline_def OnlineState_json_def)
  from shutdown_order[OF run] run show ?thesis
    by blast
qed


section \<open>The state message\<close>

text \<open>
  Claim C2, as amended. For every successful cycle, the last message published is on the
  state topic and its payload is the text of a JSON object with exactly four members,
  named \<open>timestamp\<close>, \<open>ups_name\<close>, \<open>variables\<close> and \<open>computed\<close>, where \<open>variables\<close> is
  the map of the snapshot and \<open>computed\<close> is the object of the seven derived metrics
  under their canonical names.
\<close>

theorem state_message_format:
  assumes "doPoll rt now P pub cfg w = (None, w')"
  shows "\<exists>vs payload. fst (P (poller w)) = Inr vs
      \<and> last (trace w') = Published
            \<lparr> Topic = StateTopic (MQTT_TopicPrefix (MQTT cfg)) (NUT_UPSName (NUT cfg)),
              Payload = payload, Retained = MQTT_Retained (MQTT cfg) \<rparr> None
      \<and> payload = json_text rt (JObject
            [(''timestamp'', JString now),
             (''ups_name'', JString (NUT_UPSName (NUT cfg))),
             (''variables'', JStringMap (VarsToMap vs)),
             (''computed'', Metrics_json (Compute (ParseFloat rt) (VarsToMap vs)))])
      \<and> json_fields (Metrics_json (Compute (ParseFloat rt) (VarsToMap vs))) = canonical_names
      \<and> length canonical_names = 7 \<and> distinct canonical_names
      \<and> set canonical_names = dom (AsTopicMap (Compute (ParseFloat rt) (VarsToMap vs)))"
proof -
  from doPoll_succeeded[OF assms] obtain vs pre payload where
    d: "fst (P (poller w)) = Inr vs"
       "trace w' = trace w @ Polled (Inr vs) # pre @ [Published
                \<lparr> Topic = StateTopic (MQTT_TopicPrefix (MQTT cfg)) (NUT_UPSName (NUT cfg)),
                  Payload = payload, Retained = MQTT_Retained (MQTT cfg) \<rparr> None]"
       "json_Marshal rt (StateMessage_json
                \<lparr> Timestamp = now, UPSName = NUT_UPSName (NUT cfg),
                  Variables = VarsToMap vs,
                  Computed = Compute (ParseFloat rt) (VarsToMap vs) \<rparr>) = Inr payload"
    by blast
  from d(3) have p: "payload = json_text rt (JObject
            [(''timestamp'', JString now),
             (''ups_name'', JString (NUT_UPSName (NUT cfg))),
             (''variables'', JStringMap (VarsToMap vs)),
             (''computed'', Metrics_json (Compute (ParseFloat rt) (VarsToMap vs)))])"
    by (auto simp: json_Marshal_def StateMessage_json_def split: if_splits)
  have f: "json_fields (Metrics_json m) = canonical_names" for m
    by (simp add: Metrics_json_def canonical_names_def)
  have k: "set canonical_names = dom (AsTopicMap m)" for m
    by (auto simp: canonical_names_def AsTopicMap_def)
  have c: "length canonical_names = 7" "distinct canonical_names"
    by (simp_all add: canonical_names_def)
  from d(1,2) p f k c show ?thesis
    by (intro exI[of _ vs] exI[of _ payload]) simp
qed

text \<open>
  The claim C2 as stated names the second member \<open>target_name\<close>; the code names it
  \<open>ups_name\<close>.
\<close>

theorem state_message_fields_counterexample:
  "json_fields (StateMessage_json
       \<lparr> Timestamp = ''2026-01-01T00:00:00Z'', UPSName = ''cyberpower'',
         Variables = [''ups.status'' \<mapsto> ''OL'', ''input.voltage'' \<mapsto> ''0''],
         Computed = Compute sample_ParseFloat
                      [''ups.status'' \<mapsto> ''OL'', ''input.voltage'' \<mapsto> ''0''] \<rparr>)
     = [''timestamp'', ''ups_name'', ''variables'', ''computed'']
   \<and> json_fields (StateMessage_json
       \<lparr> Timestamp = ''2026-01-01T00:00:00Z'', UPSName = ''cyberpower'',
         Variables = [''ups.status'' \<mapsto> ''OL'', ''input.voltage'' \<mapsto> ''0''],
         Computed = Compute sample_ParseFloat
                      [''ups.status'' \<mapsto> ''OL'', ''input.voltage'' \<mapsto> ''0''] \<rparr>)
     \<noteq> spec_state_fields"
  by (simp add: StateMessage_json_def spec_state_fields_def)

theorem state_message_format_witness:
  "doPoll sample_runtime ''2026-01-01T00:00:00Z'' FakePoller_Poll FakePublisher_Publish
      sample_cfg sample_world
   = (None, snd (doPoll sample_runtime ''2026-01-01T00:00:00Z'' FakePoller_Poll
        FakePublisher_Publish sample_cfg sample_world))
   \<and> last (trace (snd (doPoll sample_runtime ''2026-01-01T00:00:00Z'' FakePoller_Poll
        FakePublisher_Publish sample_cfg sample_world)))
      = Published \<lparr> Topic = ''ups/cyberpower/state'',
                     Payload = ''timestamp,ups_name,variables,computed'',
                     Retained = True \<rparr> None"
proof -
  let ?X = "doPoll sample_runtime ''2026-01-01T00:00:00Z'' FakePoller_Poll
        FakePublisher_Publish sample_cfg sample_world"
  have ok: "fst ?X = None"
    by (simp add: run_defs sample_defs sample_world_def
        sample_Compute AsTopicMap_def formatFloat_zero json_Marshal_def StateMessage_json_def
        Metrics_json_def FormatBool_def StateTopic_def)
  then have run: "?X = (None, snd ?X)" by (metis prod.collapse)
  from state_message_format[OF run] show ?thesis
    using run by (auto simp: sample_defs StateTopic_def)
qed

section \<open>Connecting at startup\<close>

lemma delay_Suc: "delay (Suc k) = (if maxBackoff < delay k * 2 then maxBackoff else delay k * 2)"
  by (auto simp: delay_def maxBackoff_def second_def min_def)

lemma loop_step:
  assumes "failing dial k" and "\<not> cancelled k"
  shows "connectNUT_loop dial cancelled k b ws
         = connectNUT_loop dial cancelled (Suc k)
             (if maxBackoff < b * 2 then maxBackoff else b * 2) (ws @ [b])"
  using assms by (subst connectNUT_loop.simps) (auto simp: failing_def split: sum.splits)

lemma loop_steps:
  assumes "\<forall>j<n. failing dial (k + j) \<and> \<not> cancelled (k + j)"
  shows "connectNUT_loop dial cancelled k (delay i) ws
         = connectNUT_loop dial cancelled (k + n) (delay (i + n)) (ws @ map delay [i..<i + n])"
  using assms
proof (induction n arbitrary: k i ws)
  case 0
  then show ?case by simp
next
  case (Suc n)
  have a: "failing dial k" "\<not> cancelled k" using Suc.prems by (auto dest: spec[of _ 0])
  have b: "\<forall>j<n. failing dial (Suc k + j) \<and> \<not> cancelled (Suc k + j)"
    using Suc.prems by (auto dest: spec[of _ "Suc _"])
  have "connectNUT_loop dial cancelled k (delay i) ws
      = connectNUT_loop dial cancelled (Suc k) (delay (Suc i)) (ws @ [delay i])"
    using loop_step[of dial k cancelled "delay i" ws] a by (simp add: delay_Suc)
  also have "\<dots> = connectNUT_loop dial cancelled (Suc k + n) (delay (Suc i + n))
                     ((ws @ [delay i]) @ map delay [Suc i..<Suc i + n])"
    by (rule Suc.IH[OF b])
  finally show ?case
    using upt_conv_Cons[of i "i + Suc n"] by simp
qed




lemma loop_returned:
  assumes "connectNUT_loop dial cancelled k b ws = Some y"
  shows "returned dial cancelled k y"
proof (rule connectNUT_loop.raw_induct[where P = "\<lambda>dial cancelled k b ws y. returned dial cancelled k y",
      OF _ assms], goal_cases)
  case (1 loop dial cancelled k backoff waits y)
  show ?case
  proof (cases "dial k")
    case (Inr c)
    with 1(2) have "y = (Inr c, Suc k, waits)" by simp
    with Inr show ?thesis by (auto simp: failing_def returned_def)
  next
    case (Inl e)
    show ?thesis
    proof (cases "cancelled k")
      case True
      with Inl 1(2) have "y = (Inl Canceled, Suc k, waits @ [backoff])" by simp
      with Inl True show ?thesis by (auto simp: failing_def returned_def)
    next
      case False
      with Inl 1(2) have
        "loop dial cancelled (Suc k)
           (if maxBackoff < backoff * 2 then maxBackoff else backoff * 2) (waits @ [backoff])
         = Some y" by simp
      from 1(1)[OF this] have ih: "returned dial cancelled (Suc k) y" .
      have "failing dial j \<and> \<not> cancelled j" if "k \<le> j \<and> Suc j < fst (snd y)" for j
      proof (cases "j = k")
        case True
        with Inl False show ?thesis by (simp add: failing_def)
      next
        case False
        with that ih show ?thesis by (simp add: Suc_le_eq returned_def)
      qed
      with ih show ?thesis by (auto simp: returned_def)
    qed
  qed
qed

lemma loop_never_returns:
  assumes "\<forall>j. failing dial j \<and> \<not> cancelled j"
  shows "connectNUT_loop dial cancelled k b ws = None"
proof (cases "connectNUT_loop dial cancelled k b ws")
  case None
  then show ?thesis .
next
  case (Some y)
  from loop_returned[OF Some] assms show ?thesis by (auto simp: returned_def)
qed

lemma delay_0: "delay 0 = second"
  by (simp add: delay_def maxBackoff_def second_def)

lemma delay_bounds: "second \<le> delay k \<and> delay k \<le> maxBackoff \<and> delay k * 2 < 2 ^ 63"
proof -
  have "(1::int) \<le> 2 ^ k" by simp
  then have "second \<le> 2 ^ k * second" by (simp add: second_def)
  then show ?thesis by (simp add: delay_def maxBackoff_def second_def min_def)
qed


lemma NewClient_ready:
  assumes "NewClient lib h p u pw ups n0 = (Inr c1, n1)"
  shows "conn c1 \<noteq> None \<and> \<not> stale c1"
  using assms
  by (auto simp: NewClient_def Let_def split: prod.splits option.splits
      dest!: connect_succeeded)

text \<open>
  Claim C6. \<open>connectNUT\<close> waits one second after the first failed attempt, twice the
  last delay after each further one and never more than sixty seconds; no number of
  failures makes it give up: when the attempts of the rounds before \<open>n\<close> fail and none of
  their waits is interrupted, round \<open>n\<close> is attempted, and when every attempt fails and
  no wait is interrupted it never returns. A cancellation during a wait ends the routine
  with \<open>context.Canceled\<close>, upon which \<open>main\<close> returns and the process exits with status
  0; the routine never returns the error of a failed connection. When an attempt succeeds
  the routine returns its client, which has a session and is not stale. The delays stay
  below \<open>2^63\<close> nanoseconds when doubled, so the arithmetic on \<open>time.Duration\<close> does not
  wrap around.
\<close>

theorem connectNUT_backoff:
  "((\<forall>k<n. failing dial k \<and> \<not> cancelled k) \<and> dial n = Inr c \<longrightarrow>
        connectNUT dial cancelled = Some (Inr c, Suc n, map delay [0..<n])
        \<and> main_connect dial cancelled = Some (Connected c))
   \<and> ((\<forall>k<n. failing dial k \<and> \<not> cancelled k) \<and> failing dial n \<and> cancelled n \<longrightarrow>
        connectNUT dial cancelled = Some (Inl Canceled, Suc n, map delay [0..<Suc n])
        \<and> main_connect dial cancelled = Some (Exited 0))
   \<and> ((\<forall>k. failing dial k \<and> \<not> cancelled k) \<longrightarrow> connectNUT dial cancelled = None)
   \<and> (\<forall>e m ws. connectNUT dial cancelled = Some (Inl e, m, ws) \<longrightarrow>
        e = Canceled \<and> cancelled (m - 1))
   \<and> (\<forall>c1 n1. NewClient lib h p u pw ups n0 = (Inr c1, n1) \<longrightarrow> conn c1 \<noteq> None \<and> \<not> stale c1)
   \<and> delay 0 = second
   \<and> delay (Suc i) = min (2 * delay i) (60 * second)
   \<and> second \<le> delay i \<and> delay i \<le> 60 * second \<and> delay i * 2 < 2 ^ 63"
proof (intro conjI impI allI)
  show r1: "connectNUT dial cancelled = Some (Inr c, Suc n, map delay [0..<n])"
    if h: "(\<forall>k<n. failing dial k \<and> \<not> cancelled k) \<and> dial n = Inr c"
  proof -
    from h have "\<forall>j<n. failing dial (0 + j) \<and> \<not> cancelled (0 + j)" by simp
    from loop_steps[OF this, of 0 "[]"] h show ?thesis
      by (simp add: connectNUT_def delay_0 connectNUT_loop.simps[of dial cancelled n])
  qed
  show "main_connect dial cancelled = Some (Connected c)"
    if h: "(\<forall>k<n. failing dial k \<and> \<not> cancelled k) \<and> dial n = Inr c"
    using r1[OF h] by (simp add: main_connect_def)
  show r2: "connectNUT dial cancelled = Some (Inl Canceled, Suc n, map delay [0..<Suc n])"
    if h: "(\<forall>k<n. failing dial k \<and> \<not> cancelled k) \<and> failing dial n \<and> cancelled n"
  proof -
    from h have "\<forall>j<n. failing dial (0 + j) \<and> \<not> cancelled (0 + j)" by simp
    from loop_steps[OF this, of 0 "[]"] h show ?thesis
      by (auto simp: connectNUT_def delay_0 connectNUT_loop.simps[of dial cancelled n]
          failing_def split: sum.splits)
  qed
  show "main_connect dial cancelled = Some (Exited 0)"
    if h: "(\<forall>k<n. failing dial k \<and> \<not> cancelled k) \<and> failing dial n \<and> cancelled n"
    using r2[OF h] by (simp add: main_connect_def)
  show "connectNUT dial cancelled = None" if "\<forall>k. failing dial k \<and> \<not> cancelled k"
    using loop_never_returns[OF that] by (simp add: connectNUT_def)
  show "e = Canceled" "cancelled (m - 1)"
    if "connectNUT dial cancelled = Some (Inl e, m, ws)" for e m ws
    using loop_returned[of dial cancelled 0 second "[]" "(Inl e, m, ws)"] that
    by (auto simp: connectNUT_def returned_def failing_def split: sum.splits)
  show "conn c1 \<noteq> None" "\<not> stale c1"
    if "NewClient lib h p u pw ups n0 = (Inr c1, n1)" for c1 n1
    using NewClient_ready[OF that] by simp_all
  show "delay 0 = second" by (rule delay_0)
  show "delay (Suc i) = min (2 * delay i) (60 * second)"
    by (simp add: delay_Suc maxBackoff_def min_def)
  show "second \<le> delay i" "delay i \<le> 60 * second" "delay i * 2 < 2 ^ 63"
    using delay_bounds[of i] by (simp_all add: maxBackoff_def)
qed

theorem connectNUT_backoff_witness:
  "failing refused_twice 0 \<and> failing refused_twice 1
   \<and> refused_twice 2 = Inr (sample_client False ''cyberpower'')
   \<and> connectNUT refused_twice (\<lambda>k. False)
       = Some (Inr (sample_client False ''cyberpower''), 3, [1000000000, 2000000000])
   \<and> failing (\<lambda>k. Inl (External ''connection refused'') :: error + unit Client) 2
   \<and> connectNUT (\<lambda>k. Inl (External ''connection refused'') :: error + unit Client) (\<lambda>k. k = 2)
       = Some (Inl Canceled, 3, [1000000000, 2000000000, 4000000000])"
proof -
  have a: "\<forall>k<2. failing refused_twice k \<and> \<not> (\<lambda>k. False) k"
    by (simp add: failing_def refused_twice_def)
  have b: "refused_twice 2 = Inr (sample_client False ''cyberpower'')"
    by (simp add: refused_twice_def)
  have c: "\<forall>k<2. failing (\<lambda>k. Inl (External ''connection refused'') :: error + unit Client) k
             \<and> \<not> (\<lambda>k. k = 2) k"
    by (simp add: failing_def)
  have d: "failing (\<lambda>k. Inl (External ''connection refused'') :: error + unit Client) 2"
    by (simp add: failing_def)
  have e: "map delay [0..<2] = [1000000000, 2000000000]"
    "map delay [0..<Suc 2] = [1000000000, 2000000000, 4000000000]"
    by (simp_all add: delay_def second_def maxBackoff_def upt_rec numeral_2_eq_2 numeral_3_eq_3)
  from connectNUT_backoff[of 2 refused_twice "\<lambda>k. False" "sample_client False ''cyberpower''"]
    a b
  have r1: "connectNUT refused_twice (\<lambda>k. False)
       = Some (Inr (sample_client False ''cyberpower''), Suc 2, map delay [0..<2])"
    by blast
  from connectNUT_backoff[of 2 "\<lambda>k. Inl (External ''connection refused'') :: error + unit Client"
      "\<lambda>k. k = 2"] c d
  have r2: "connectNUT (\<lambda>k. Inl (External ''connection refused'') :: error + unit Client)
        (\<lambda>k. k = 2) = Some (Inl Canceled, Suc 2, map delay [0..<Suc 2])"
    by blast
  have g: "failing refused_twice 0" "failing refused_twice 1"
    by (simp_all add: failing_def refused_twice_def)
  from r1 r2 show ?thesis
    unfolding e using b d g by simp
qed

section \<open>Arithmetic of float64\<close>

lemma ipow_pos: "0 < b \<Longrightarrow> 0 < ipow b e"
  by (simp add: ipow_def)

lemma ipow_Suc: "0 < b \<Longrightarrow> ipow b (e + 1) = of_nat b * ipow b e"
proof (cases "0 \<le> e")
  case True
  then show ?thesis by (simp add: ipow_def nat_add_distrib)
next
  case False
  assume b: "0 < b"
  from False have "nat (- e) = Suc (nat (- (e + 1)))" by simp
  with False b show ?thesis by (auto simp: ipow_def)
qed

lemma ipow_add: "0 < b \<Longrightarrow> ipow b (e + int n) = of_nat b ^ n * ipow b e"
proof (induction n)
  case 0
  then show ?case by simp
next
  case (Suc n)
  have "e + int (Suc n) = (e + int n) + 1" by simp
  then have "ipow b (e + int (Suc n)) = ipow b ((e + int n) + 1)" by (rule arg_cong)
  with Suc show ?case by (simp add: ipow_Suc)
qed

lemma ipow_mono: 
  assumes "1 < b" and "e \<le> e'" shows "ipow b e \<le> ipow b e'"
proof -
  from assms(2) obtain n where "e' = e + int n" by (metis zle_iff_zadd)
  moreover have "1 \<le> (of_nat b :: rat) ^ n" using assms(1) by simp
  moreover have "0 < ipow b e" using assms(1) by (simp add: ipow_pos)
  ultimately show ?thesis using assms(1) by (simp add: ipow_add)
qed

lemma ilog_unique:
  assumes "1 < b" and "ipow b e \<le> q" "q < ipow b (e + 1)"
    and "ipow b e' \<le> q" "q < ipow b (e' + 1)"
  shows "e = e'"
proof (rule ccontr)
  assume "e \<noteq> e'"
  then consider "e + 1 \<le> e'" | "e' + 1 \<le> e" by linarith
  then show False
  proof cases
    case 1
    from ipow_mono[OF assms(1) 1] assms show ?thesis by linarith
  next
    case 2
    from ipow_mono[OF assms(1) 2] assms show ?thesis by linarith
  qed
qed


lemma ipow_nonneg: "ipow b (int n) = of_nat b ^ n"
  by (simp add: ipow_def)

lemma ipow_neg: "0 < n \<Longrightarrow> ipow b (- int n) = 1 / of_nat b ^ n"
  by (simp add: ipow_def)

lemma ipow_diff:
  assumes "0 < b" shows "ipow b (int x - int y) = of_nat b ^ x / of_nat b ^ y"
proof (cases "y \<le> x")
  case True
  then have A: "int x - int y = int (x - y)" by simp
  have B: "(of_nat b :: rat) ^ (x - y) = of_nat b ^ x / of_nat b ^ y"
    using assms True by (simp add: power_diff)
  show ?thesis unfolding A ipow_nonneg by (rule B)
next
  case False
  then have A: "int x - int y = - int (y - x)" and p: "0 < y - x" by simp_all
  have B: "(of_nat b :: rat) ^ (y - x) = of_nat b ^ y / of_nat b ^ x"
    using assms False by (simp add: power_diff)
  show ?thesis unfolding A ipow_neg[OF p] B by simp
qed

lemma ilog_bounds:
  assumes b: "1 < b" and q: "0 < q"
  shows "ipow b (ilog b q) \<le> q \<and> q < ipow b (ilog b q + 1)"
proof -
  obtain n d where nd: "quotient_of q = (n, d)" by (cases "quotient_of q")
  then have d: "0 < d" and qeq: "q = of_int n / of_int d"
    using quotient_of_denom_pos quotient_of_div by blast+
  from q qeq d have n: "0 < n" by (simp add: zero_less_divide_iff)
  define ln where "ln = floorlog b (nat n)"
  define ld where "ld = floorlog b (nat d)"
  define k where "k = int ln - int ld"
  have bn: "b ^ (ln - 1) \<le> nat n" "nat n < b ^ ln"
    using floorlog_bounds[of "nat n" b] n b by (simp_all add: ln_def)
  have bd: "b ^ (ld - 1) \<le> nat d" "nat d < b ^ ld"
    using floorlog_bounds[of "nat d" b] d b by (simp_all add: ld_def)
  have ln1: "1 \<le> ln" using n b by (simp add: ln_def floorlog_def)
  have ld1: "1 \<le> ld" using d b by (simp add: ld_def floorlog_def)
  have b0: "0 < b" using b by simp
  have rn: "(of_nat b :: rat) ^ (ln - 1) \<le> of_int n" "(of_int n :: rat) < of_nat b ^ ln"
  proof -
    have "(of_nat (b ^ (ln - 1)) :: rat) \<le> of_nat (nat n)" using bn(1) by (simp only: of_nat_le_iff)
    then show "(of_nat b :: rat) ^ (ln - 1) \<le> of_int n" using n by simp
    have "(of_nat (nat n) :: rat) < of_nat (b ^ ln)" using bn(2) by (simp only: of_nat_less_iff)
    then show "(of_int n :: rat) < of_nat b ^ ln" using n by simp
  qed
  have rd: "(of_nat b :: rat) ^ (ld - 1) \<le> of_int d" "(of_int d :: rat) < of_nat b ^ ld"
  proof -
    have "(of_nat (b ^ (ld - 1)) :: rat) \<le> of_nat (nat d)" using bd(1) by (simp only: of_nat_le_iff)
    then show "(of_nat b :: rat) ^ (ld - 1) \<le> of_int d" using d by simp
    have "(of_nat (nat d) :: rat) < of_nat (b ^ ld)" using bd(2) by (simp only: of_nat_less_iff)
    then show "(of_int d :: rat) < of_nat b ^ ld" using d by simp
  qed
  have dpos: "(0::rat) < of_int d" using d by simp
  have bpos: "(0::rat) < of_nat b ^ m" for m using b0 by simp
  have up: "q < ipow b (k + 1)"
  proof -
    have "k + 1 = int ln - int (ld - 1)" using ld1 by (simp add: k_def)
    then have A: "ipow b (k + 1) = of_nat b ^ ln / of_nat b ^ (ld - 1)"
      using ipow_diff[OF b0, of ln "ld - 1"] by simp
    have B: "of_int n / of_int d < (of_nat b :: rat) ^ ln / of_nat b ^ (ld - 1)"
      using rn(2) rd(1) dpos bpos[of "ld - 1"] n
      by (intro frac_less) simp_all
    show ?thesis unfolding qeq A by (rule B)
  qed
  have lo: "ipow b (k - 1) \<le> q"
  proof -
    have "k - 1 = int (ln - 1) - int ld" using ln1 by (simp add: k_def)
    then have A: "ipow b (k - 1) = of_nat b ^ (ln - 1) / of_nat b ^ ld"
      using ipow_diff[OF b0, of "ln - 1" ld] by simp
    have B: "(of_nat b :: rat) ^ (ln - 1) / of_nat b ^ ld \<le> of_int n / of_int d"
      using rn(1) rd(2) dpos bpos[of "ln - 1"] n
      by (intro frac_le) simp_all
    show ?thesis unfolding qeq A by (rule B)
  qed
  have il: "ilog b q = (if ipow b k \<le> q then k else k - 1)"
    by (simp add: ilog_def nd ln_def ld_def k_def Let_def)
  show ?thesis
  proof (cases "ipow b k \<le> q")
    case True
    then have "ilog b q = k" using il by simp
    with True up show ?thesis by simp
  next
    case False
    then have "ilog b q = k - 1" using il by simp
    with False lo show ?thesis by simp
  qed
qed

lemma ilog_eqI:
  assumes "1 < b" and "ipow b e \<le> q" and "q < ipow b (e + 1)"
  shows "ilog b q = e"
proof -
  have "0 < ipow b e" using assms(1) by (simp add: ipow_pos)
  with assms(2) have q: "0 < q" by linarith
  from ilog_bounds[OF assms(1) q] assms show ?thesis
    by (intro ilog_unique[of b _ q]) simp_all
qed

lemma round_half_even_of_int: "round_half_even (of_int m) = m"
  by (simp add: round_half_even_def)


lemma round_half_even_near:
  assumes "\<bar>x - of_int m\<bar> < 1 / 2"
  shows "round_half_even x = m"
proof (cases "of_int m \<le> x")
  case True
  with assms have "x < of_int m + 1 / 2" by linarith
  with True have f: "\<lfloor>x\<rfloor> = m" by (intro floor_unique) linarith+
  with assms True show ?thesis by (simp add: round_half_even_def Let_def)
next
  case False
  with assms have x: "of_int m - 1 / 2 < x" "x < of_int m" by linarith+
  moreover have "rat_of_int (m - 1) = of_int m - 1" by simp
  ultimately have "of_int (m - 1) \<le> x" "x < of_int (m - 1) + 1" by linarith+
  then have f: "\<lfloor>x\<rfloor> = m - 1" by (rule floor_unique)
  with x show ?thesis by (simp add: round_half_even_def Let_def)
qed

lemma ipow_less_cancel:
  assumes "1 < b" and "ipow b e < ipow b e'" shows "e < e'"
proof (rule ccontr)
  assume "\<not> e < e'"
  then have "e' \<le> e" by simp
  from ipow_mono[OF assms(1) this] assms(2) show False by simp
qed

lemma rnd64_exact:
  assumes m: "0 < m" "m < 2 ^ 53" and u: "- 1074 \<le> u" "u \<le> 971"
  shows "rnd64 s (of_int m * ipow 2 u) = Fin s (of_int m * ipow 2 u)"
proof -
  define q :: rat where "q = of_int m * ipow 2 u"
  have p2: "0 < ipow 2 x" for x by (simp add: ipow_pos)
  have qpos: "0 < q" using m(1) p2[of u] by (simp add: q_def)
  define e where "e = ilog 2 q"
  have eb: "ipow 2 e \<le> q" "q < ipow 2 (e + 1)"
    using ilog_bounds[of 2 q] qpos by (simp_all add: e_def)
  have top: "ipow 2 (u + 53) = 2 ^ 53 * ipow 2 u"
    using ipow_add[of 2 u 53] by simp
  have "(of_int m :: rat) < 2 ^ 53" using m(2) by (metis of_int_less_iff of_int_numeral of_int_power)
  then have qtop: "q < ipow 2 (u + 53)"
    unfolding top q_def using p2[of u] by simp
  with eb(1) have "ipow 2 e < ipow 2 (u + 53)" by linarith
  then have "e < u + 53" by (rule ipow_less_cancel[rotated]) simp
  define u' where "u' = max (e - 52) (- 1074)"
  have u'le: "u' \<le> u" using \<open>e < u + 53\<close> u(1) by (simp add: u'_def)
  define j where "j = nat (u - u')"
  have uj: "u = u' + int j" using u'le by (simp add: j_def)
  have pu: "ipow 2 u = 2 ^ j * ipow 2 u'"
    unfolding uj using ipow_add[of 2 u' j] by simp
  have quot: "q / ipow 2 u' = of_int (m * 2 ^ j)"
    unfolding q_def pu using p2[of u'] by simp
  have r: "of_int (round_half_even (q / ipow 2 u')) * ipow 2 u' = q"
    unfolding quot round_half_even_of_int by (simp add: q_def pu)
  have "u + 53 \<le> 1024" using u(2) by simp
  then have "ipow 2 (u + 53) \<le> ipow 2 1024" by (intro ipow_mono) simp_all
  with qtop have nov: "\<not> ipow 2 1024 \<le> q" by linarith
  have "rnd64 s q = Fin s q"
    using qpos r nov by (simp add: rnd64_def Let_def e_def[symmetric] u'_def[symmetric])
  then show ?thesis by (simp add: q_def)
qed

lemma rnd64_zero [simp]: "rnd64 s 0 = Fin s 0"
  by (simp add: rnd64_def)

lemma rnd64_numeral:
  assumes "(numeral k :: int) < 2 ^ 53"
  shows "rnd64 s (numeral k) = Fin s (numeral k)"
  using rnd64_exact[of "numeral k" 0 s] assms by (simp add: ipow_def)

lemma rnd64_one: "rnd64 s 1 = Fin s 1"
  using rnd64_exact[of 1 0 s] by (simp add: ipow_def)

lemma f64_numeral:
  assumes "(numeral k :: int) < 2 ^ 53"
  shows "f64 (numeral k) = Fin False (numeral k)"
  using rnd64_numeral[OF assms, of False] by (simp add: f64_def)

lemma math_Round_of_int: "math_Round (Fin s (of_int n)) = Fin s (of_int n)"
proof -
  have "\<lfloor>rat_of_int n + 1 / 2\<rfloor> = n" by (rule floor_unique) simp_all
  then show ?thesis by simp
qed

lemma math_Round_numeral: "math_Round (Fin s (numeral k)) = Fin s (numeral k)"
  using math_Round_of_int[of s "numeral k"] by simp

lemmas float_eval = f64_numeral f64_0 fsub_def signed_def rnd64_numeral rnd64_one
  math_Round_numeral

section \<open>Derived metrics\<close>

lemma floor_numeral_div: "\<lfloor>numeral a / numeral b :: rat\<rfloor> = numeral a div numeral b"
  using floor_divide_of_int_eq[of "numeral a" "numeral b", where ?'a = rat] by simp

lemma parseFloat_ok: "snd (parseFloat PF s) \<longleftrightarrow> s \<noteq> [] \<and> (\<exists>v. PF s = Inr v)"
  by (auto simp: parseFloat_def split: sum.splits)

lemma parseFloat_value: "snd (parseFloat PF s) \<Longrightarrow> PF s = Inr (fst (parseFloat PF s))"
  by (auto simp: parseFloat_def split: sum.splits if_splits)

lemma parseFloat_failed: "\<not> snd (parseFloat PF s) \<Longrightarrow> fst (parseFloat PF s) = f64 0"
  by (auto simp: parseFloat_def split: sum.splits if_splits)

lemma parseFloat_missing: "vs k = None \<Longrightarrow> \<not> snd (parseFloat PF (lookup vs k))"
  by (simp add: parseFloat_def lookup_def)

lemma hasStatusToken_empty: "\<not> hasStatusToken [] token"
  by (simp add: hasStatusToken_def strings_Fields_def)

text \<open>
  Claim C7. \<open>Compute\<close> has a value on every snapshot: the model has no error result
  because the source has no error return and no operation that can panic. A text is read
  as a number exactly when it is not empty and \<open>strconv.ParseFloat\<close> returns a
  \<open>float64\<close> for it, and a variable that is absent reads as the empty text. A field
  whose input is absent or is not read as a number has its zero value: \<open>load_watts\<close> is
  0 when \<open>ups.load\<close> or \<open>ups.realpower.nominal\<close> is not read, the two runtimes are 0
  when \<open>battery.runtime\<close> is not read, the deviation is 0 when one of the voltages is not
  read, and without \<open>ups.status\<close> the two flags are false and the display is empty.
\<close>

theorem Compute_zero_defaults:
  "(snd (parseFloat PF s) \<longleftrightarrow> s \<noteq> [] \<and> (\<exists>v. PF s = Inr v))
   \<and> (snd (parseFloat PF s) \<longrightarrow> PF s = Inr (fst (parseFloat PF s)))
   \<and> (\<not> snd (parseFloat PF s) \<longrightarrow> fst (parseFloat PF s) = f64 0)
   \<and> (vs k = None \<longrightarrow> \<not> snd (parseFloat PF (lookup vs k)))
   \<and> (\<not> snd (parseFloat PF (lookup vs ''ups.load''))
        \<or> \<not> snd (parseFloat PF (lookup vs ''ups.realpower.nominal''))
        \<longrightarrow> LoadWatts (Compute PF vs) = f64 0)
   \<and> (\<not> snd (parseFloat PF (lookup vs ''battery.runtime''))
        \<longrightarrow> BatteryRuntimeMins (Compute PF vs) = f64 0
          \<and> BatteryRuntimeHours (Compute PF vs) = f64 0)
   \<and> (\<not> snd (parseFloat PF (lookup vs ''input.voltage''))
        \<or> \<not> snd (parseFloat PF (lookup vs ''input.voltage.nominal''))
        \<longrightarrow> InputVoltageDeviationPct (Compute PF vs) = f64 0)
   \<and> (vs ''ups.status'' = None \<longrightarrow>
        \<not> OnBattery (Compute PF vs) \<and> \<not> LowBattery (Compute PF vs)
        \<and> StatusDisplay (Compute PF vs) = [])
   \<and> f64 0 = Fin False 0"
proof (intro conjI impI)
  show "snd (parseFloat PF s) \<longleftrightarrow> s \<noteq> [] \<and> (\<exists>v. PF s = Inr v)" by (rule parseFloat_ok)
  show "PF s = Inr (fst (parseFloat PF s))" if "snd (parseFloat PF s)"
    using that by (rule parseFloat_value)
  show "fst (parseFloat PF s) = f64 0" if "\<not> snd (parseFloat PF s)"
    using that by (rule parseFloat_failed)
  show "\<not> snd (parseFloat PF (lookup vs k))" if "vs k = None"
    using that by (rule parseFloat_missing)
  show "LoadWatts (Compute PF vs) = f64 0"
    if "\<not> snd (parseFloat PF (lookup vs ''ups.load''))
        \<or> \<not> snd (parseFloat PF (lookup vs ''ups.realpower.nominal''))"
    using that by (auto simp: Compute_def computeLoadWatts_def split: prod.splits)
  show "BatteryRuntimeMins (Compute PF vs) = f64 0"
    if "\<not> snd (parseFloat PF (lookup vs ''battery.runtime''))"
    using that by (auto simp: Compute_def computeBatteryRuntimeMins_def split: prod.splits)
  show "BatteryRuntimeHours (Compute PF vs) = f64 0"
    if "\<not> snd (parseFloat PF (lookup vs ''battery.runtime''))"
    using that by (auto simp: Compute_def computeBatteryRuntimeHours_def split: prod.splits)
  show "InputVoltageDeviationPct (Compute PF vs) = f64 0"
    if "\<not> snd (parseFloat PF (lookup vs ''input.voltage''))
        \<or> \<not> snd (parseFloat PF (lookup vs ''input.voltage.nominal''))"
    using that by (auto simp: Compute_def computeInputVoltageDeviationPct_def split: prod.splits)
  show "\<not> OnBattery (Compute PF vs)" "\<not> LowBattery (Compute PF vs)"
    "StatusDisplay (Compute PF vs) = []" if "vs ''ups.status'' = None"
    using that by (simp_all add: Compute_def lookup_def hasStatusToken_empty computeStatusDisplay_def)
  show "f64 0 = Fin False 0" by (rule f64_0)
qed

theorem Compute_zero_defaults_witness:
  "\<not> snd (parseFloat sample_ParseFloat (lookup Map.empty ''ups.load''))
   \<and> LoadWatts (Compute sample_ParseFloat Map.empty) = Fin False 0
   \<and> \<not> snd (parseFloat sample_ParseFloat
        (lookup [''ups.load'' \<mapsto> ''8'', ''ups.realpower.nominal'' \<mapsto> ''n/a''] ''ups.realpower.nominal''))
   \<and> LoadWatts (Compute sample_ParseFloat
        [''ups.load'' \<mapsto> ''8'', ''ups.realpower.nominal'' \<mapsto> ''n/a'']) = Fin False 0"
proof -
  have a: "\<not> snd (parseFloat sample_ParseFloat (lookup Map.empty ''ups.load''))"
    by (simp add: parseFloat_def lookup_def)
  have b: "\<not> snd (parseFloat sample_ParseFloat
        (lookup [''ups.load'' \<mapsto> ''8'', ''ups.realpower.nominal'' \<mapsto> ''n/a''] ''ups.realpower.nominal''))"
    by (simp add: parseFloat_def lookup_def sample_ParseFloat_def)
  from Compute_zero_defaults[of sample_ParseFloat "[]" Map.empty "''ups.load''"] a
  have r1: "LoadWatts (Compute sample_ParseFloat Map.empty) = f64 0" by blast
  from Compute_zero_defaults[of sample_ParseFloat "[]"
      "[''ups.load'' \<mapsto> ''8'', ''ups.realpower.nominal'' \<mapsto> ''n/a'']" "''ups.load''"] b
  have r2: "LoadWatts (Compute sample_ParseFloat
        [''ups.load'' \<mapsto> ''8'', ''ups.realpower.nominal'' \<mapsto> ''n/a'']) = f64 0" by blast
  from a b r1 r2 show ?thesis unfolding f64_0 by blast
qed

text \<open>
  Claim C3. When both voltages are read as numbers and the nominal one is not zero,
  \<open>input_voltage_deviation_pct\<close> is \<open>round2((voltage - nominal) / nominal * 100)\<close>; it
  is 0 when one of them is absent or not read as a number, or the nominal one equals
  zero. A voltage of zero is not guarded: with \<open>input.voltage = "0"\<close> and
  \<open>input.voltage.nominal = "230"\<close>, read as 0 and 230, the result is -100.
\<close>

theorem voltage_deviation:
  "(parseFloat PF (lookup vs ''input.voltage'') = (v, True)
      \<and> parseFloat PF (lookup vs ''input.voltage.nominal'') = (n, True) \<and> \<not> feq n (f64 0)
      \<longrightarrow> InputVoltageDeviationPct (Compute PF vs)
            = round2 (fmul (fdiv (fsub v n) n) (f64 100)))
   \<and> (\<not> snd (parseFloat PF (lookup vs ''input.voltage''))
        \<or> \<not> snd (parseFloat PF (lookup vs ''input.voltage.nominal''))
        \<or> feq (fst (parseFloat PF (lookup vs ''input.voltage.nominal''))) (f64 0)
        \<longrightarrow> InputVoltageDeviationPct (Compute PF vs) = f64 0)
   \<and> (snd (parseFloat PF s) \<longleftrightarrow> s \<noteq> [] \<and> (\<exists>x. PF s = Inr x))
   \<and> (vs k = None \<longrightarrow> \<not> snd (parseFloat PF (lookup vs k)))
   \<and> (vs ''input.voltage'' = Some ''0'' \<and> vs ''input.voltage.nominal'' = Some ''230''
        \<and> PF ''0'' = Inr (f64 0) \<and> PF ''230'' = Inr (f64 230)
        \<longrightarrow> InputVoltageDeviationPct (Compute PF vs) = f64 (- 100))
   \<and> f64 (- 100) = Fin True 100 \<and> f64 0 = Fin False 0"
proof (intro conjI impI)
  show "InputVoltageDeviationPct (Compute PF vs) = round2 (fmul (fdiv (fsub v n) n) (f64 100))"
    if "parseFloat PF (lookup vs ''input.voltage'') = (v, True)
      \<and> parseFloat PF (lookup vs ''input.voltage.nominal'') = (n, True) \<and> \<not> feq n (f64 0)"
    using that by (simp add: Compute_def computeInputVoltageDeviationPct_def round2_def)
  show "InputVoltageDeviationPct (Compute PF vs) = f64 0"
    if "\<not> snd (parseFloat PF (lookup vs ''input.voltage''))
        \<or> \<not> snd (parseFloat PF (lookup vs ''input.voltage.nominal''))
        \<or> feq (fst (parseFloat PF (lookup vs ''input.voltage.nominal''))) (f64 0)"
    using that by (auto simp: Compute_def computeInputVoltageDeviationPct_def split: prod.splits)
  show "snd (parseFloat PF s) \<longleftrightarrow> s \<noteq> [] \<and> (\<exists>x. PF s = Inr x)" by (rule parseFloat_ok)
  show "\<not> snd (parseFloat PF (lookup vs k))" if "vs k = None"
    using that by (rule parseFloat_missing)
  show m100: "f64 (- 100) = Fin True 100" by (simp add: f64_def rnd64_numeral)
  show "f64 0 = Fin False 0" by (rule f64_0)
  show "InputVoltageDeviationPct (Compute PF vs) = f64 (- 100)"
    if "vs ''input.voltage'' = Some ''0'' \<and> vs ''input.voltage.nominal'' = Some ''230''
        \<and> PF ''0'' = Inr (f64 0) \<and> PF ''230'' = Inr (f64 230)"
    unfolding m100 using that
    by (simp add: Compute_def computeInputVoltageDeviationPct_def parseFloat_def lookup_def
        float_eval del: math_Round.simps)
qed

theorem voltage_deviation_witness:
  "[''input.voltage'' \<mapsto> ''0'', ''input.voltage.nominal'' \<mapsto> ''230''] ''input.voltage'' = Some ''0''
   \<and> [''input.voltage'' \<mapsto> ''0'', ''input.voltage.nominal'' \<mapsto> ''230''] ''input.voltage.nominal''
       = Some ''230''
   \<and> sample_ParseFloat ''0'' = Inr (f64 0) \<and> sample_ParseFloat ''230'' = Inr (f64 230)
   \<and> InputVoltageDeviationPct (Compute sample_ParseFloat
        [''input.voltage'' \<mapsto> ''0'', ''input.voltage.nominal'' \<mapsto> ''230'']) = Fin True 100"
proof -
  have a: "sample_ParseFloat ''0'' = Inr (f64 0)" "sample_ParseFloat ''230'' = Inr (f64 230)"
    by (simp_all add: sample_ParseFloat_def)
  have b: "[''input.voltage'' \<mapsto> ''0'', ''input.voltage.nominal'' \<mapsto> ''230''] ''input.voltage''
       = Some ''0''"
    "[''input.voltage'' \<mapsto> ''0'', ''input.voltage.nominal'' \<mapsto> ''230''] ''input.voltage.nominal''
       = Some ''230''"
    by simp_all
  from voltage_deviation[of sample_ParseFloat
      "[''input.voltage'' \<mapsto> ''0'', ''input.voltage.nominal'' \<mapsto> ''230'']"] a b
  have "InputVoltageDeviationPct (Compute sample_ParseFloat
        [''input.voltage'' \<mapsto> ''0'', ''input.voltage.nominal'' \<mapsto> ''230'']) = Fin True 100"
    by metis
  with a b show ?thesis by blast
qed

section \<open>The topic map\<close>

lemma shortest_from_found:
  "shortest_try q n = Some r \<Longrightarrow> shortest_from q n (Suc fuel) = r"
  by simp

lemma shortest_from_skip:
  "shortest_try q n = None \<Longrightarrow> shortest_from q n (Suc fuel) = shortest_from q (Suc n) fuel"
  by simp

lemma ilog10_72: "ilog 10 72 = 1"
  by (rule ilog_eqI) (simp_all add: ipow_def)

lemma try1_72: "shortest_try 72 1 = None"
  by (simp add: shortest_try_def ilog10_72 Let_def ipow_def floor_numeral_div rnd64_numeral)

lemma try2_72: "shortest_try 72 2 = Some (72, 0)"
  by (simp add: shortest_try_def ilog10_72 Let_def ipow_def floor_numeral_div rnd64_numeral
      round_half_even_def)

lemma shortest_72: "shortest 72 = (72, 0)"
proof -
  have "shortest_from 72 1 (nat (ilog 10 72 + 1075)) = shortest_from 72 1 (Suc 1075)"
    by (simp add: ilog10_72)
  also have "\<dots> = shortest_from 72 (Suc 1) 1075" by (rule shortest_from_skip[OF try1_72])
  also have "\<dots> = shortest_from 72 2 (Suc 1074)" by (simp add: numeral_2_eq_2)
  also have "\<dots> = (72, 0)" by (rule shortest_from_found[OF try2_72])
  finally show ?thesis by (simp add: shortest_def strip_zeros.simps)
qed

lemma FormatFloat_72: "FormatFloat_f_shortest (f64 72) = ''72''"
  by (simp add: f64_numeral shortest_72 fmt_f_def digits10.simps digit_char_def)

subsection \<open>Rounding is monotone\<close>

lemma ipow_plus:
  assumes "0 < b" shows "ipow b (e + e') = ipow b e * ipow b e'"
proof (cases "0 \<le> e'")
  case True
  then have "e' = int (nat e')" by simp
  then have "ipow b (e + e') = ipow b (e + int (nat e'))" by (rule arg_cong)
  also have "\<dots> = of_nat b ^ nat e' * ipow b e" by (rule ipow_add[OF assms])
  also have "of_nat b ^ nat e' = ipow b e'" using True by (simp add: ipow_def)
  finally show ?thesis by simp
next
  case False
  then have e: "e = (e + e') + int (nat (- e'))" by simp
  have "ipow b e = ipow b ((e + e') + int (nat (- e')))" by (rule arg_cong[OF e])
  also have "\<dots> = of_nat b ^ nat (- e') * ipow b (e + e')" by (rule ipow_add[OF assms])
  finally have 1: "ipow b e = of_nat b ^ nat (- e') * ipow b (e + e')" .
  have 2: "ipow b e' = 1 / of_nat b ^ nat (- e')" using False by (simp add: ipow_def)
  have "(of_nat b :: rat) ^ nat (- e') \<noteq> 0" using assms by simp
  with 1 2 show ?thesis by simp
qed

lemma ipow_0 [simp]: "ipow b 0 = 1"
  by (simp add: ipow_def)

lemma ipow_strict_mono:
  assumes "1 < b" and "e < e'" shows "ipow b e < ipow b e'"
proof -
  have "e' = e + int (nat (e' - e))" using assms(2) by simp
  then have "ipow b e' = ipow b (e + int (nat (e' - e)))" by (rule arg_cong)
  also have "\<dots> = of_nat b ^ nat (e' - e) * ipow b e" using assms(1) by (intro ipow_add) simp
  finally have eq: "ipow b e' = of_nat b ^ nat (e' - e) * ipow b e" .
  have "0 < nat (e' - e)" using assms(2) by simp
  then have "(1::rat) < of_nat b ^ nat (e' - e)"
    using assms(1) by (intro one_less_power) simp_all
  moreover have "0 < ipow b e" using assms(1) by (intro ipow_pos) simp
  ultimately show ?thesis unfolding eq by simp
qed

lemma ilog_mono:
  assumes "1 < b" and "0 < a" and "a \<le> c"
  shows "ilog b a \<le> ilog b c"
proof -
  have "ipow b (ilog b a) \<le> a" using ilog_bounds[OF assms(1,2)] by simp
  also note assms(3)
  also have "c < ipow b (ilog b c + 1)" using ilog_bounds[OF assms(1), of c] assms(2,3) by simp
  finally have "ilog b a < ilog b c + 1" by (rule ipow_less_cancel[OF assms(1)])
  then show ?thesis by simp
qed

lemma ilog_ge:
  assumes "1 < b" and "ipow b e \<le> q"
  shows "e \<le> ilog b q"
proof -
  have "0 < ipow b e" using assms(1) by (intro ipow_pos) simp
  with assms(2) have q: "0 < q" by simp
  note assms(2)
  also have "q < ipow b (ilog b q + 1)" using ilog_bounds[OF assms(1) q] by simp
  finally have "e < ilog b q + 1" by (rule ipow_less_cancel[OF assms(1)])
  then show ?thesis by simp
qed

lemma ilog_less:
  assumes "1 < b" and "0 < q" and "q < ipow b e"
  shows "ilog b q < e"
proof -
  have "ipow b (ilog b q) \<le> q" using ilog_bounds[OF assms(1,2)] by simp
  also note assms(3)
  finally show ?thesis by (rule ipow_less_cancel[OF assms(1)])
qed

lemma round_half_even_cases:
  "round_half_even y = \<lfloor>y\<rfloor> \<or> round_half_even y = \<lfloor>y\<rfloor> + 1"
  by (simp add: round_half_even_def Let_def)

lemma round_half_even_mono:
  assumes "a \<le> c" shows "round_half_even a \<le> round_half_even c"
proof (cases "\<lfloor>a\<rfloor> = \<lfloor>c\<rfloor>")
  case True
  with assms show ?thesis
    by (auto simp: round_half_even_def Let_def)
next
  case False
  with assms have "\<lfloor>a\<rfloor> < \<lfloor>c\<rfloor>" using floor_mono[OF assms] by simp
  moreover have "round_half_even a \<le> \<lfloor>a\<rfloor> + 1" using round_half_even_cases[of a] by auto
  moreover have "\<lfloor>c\<rfloor> \<le> round_half_even c" using round_half_even_cases[of c] by auto
  ultimately show ?thesis by linarith
qed


lemma rnd64_rounded:
  "q \<noteq> 0 \<Longrightarrow> rnd64 s q = (if ipow 2 1024 \<le> rounded q then Inf s else Fin s (rounded q))"
  by (simp add: rnd64_def rounded_def Let_def)

lemma round_half_even_le_int: "y \<le> of_int k \<Longrightarrow> round_half_even y \<le> k"
  using round_half_even_mono[of y "of_int k"] by (simp add: round_half_even_of_int)

lemma round_half_even_ge_int: "of_int k \<le> y \<Longrightarrow> k \<le> round_half_even y"
  using round_half_even_mono[of "of_int k" y] by (simp add: round_half_even_of_int)

lemma ipow_of_int: "0 \<le> e \<Longrightarrow> ipow b e = of_int (int b ^ nat e)"
  by (simp add: ipow_def)

lemma ipow_minus: "0 < b \<Longrightarrow> ipow b e / ipow b e' = ipow b (e - e')"
proof -
  assume b: "0 < b"
  have "ipow b e = ipow b ((e - e') + e')" by simp
  also have "\<dots> = ipow b (e - e') * ipow b e'" by (rule ipow_plus[OF b])
  finally show ?thesis using ipow_pos[OF b, of e'] by simp
qed

lemma rounded_upper:
  assumes "0 < a" and "u = max (ilog 2 a - 52) (- 1074)" and "ilog 2 a + 1 \<le> t" and "u \<le> t"
  shows "rounded a \<le> ipow 2 t"
proof -
  have p: "0 < ipow 2 u" by (intro ipow_pos) simp
  have "a < ipow 2 (ilog 2 a + 1)" using ilog_bounds[of 2 a] assms(1) by simp
  also have "\<dots> \<le> ipow 2 t" using assms(3) by (intro ipow_mono) simp_all
  finally have "a / ipow 2 u \<le> ipow 2 t / ipow 2 u" using p by (simp add: divide_right_mono)
  also have "\<dots> = ipow 2 (t - u)" by (rule ipow_minus) simp
  also have "\<dots> = of_int (2 ^ nat (t - u))" using assms(4) by (simp add: ipow_of_int)
  finally have "round_half_even (a / ipow 2 u) \<le> 2 ^ nat (t - u)"
    by (rule round_half_even_le_int)
  then have "(of_int (round_half_even (a / ipow 2 u)) :: rat) \<le> of_int (2 ^ nat (t - u))"
    by (simp only: of_int_le_iff)
  also have "\<dots> = ipow 2 (t - u)" using assms(4) by (simp add: ipow_of_int)
  finally have "of_int (round_half_even (a / ipow 2 u)) * ipow 2 u \<le> ipow 2 (t - u) * ipow 2 u"
    using p by (simp add: mult_right_mono)
  also have "\<dots> = ipow 2 ((t - u) + u)" by (rule ipow_plus[symmetric]) simp
  finally show ?thesis unfolding rounded_def Let_def assms(2)[symmetric] by simp
qed

lemma rounded_lower:
  assumes "0 < c" and "u = max (ilog 2 c - 52) (- 1074)" and "t \<le> ilog 2 c" and "u \<le> t"
  shows "ipow 2 t \<le> rounded c"
proof -
  have p: "0 < ipow 2 u" by (intro ipow_pos) simp
  have "ipow 2 t \<le> ipow 2 (ilog 2 c)" using assms(3) by (intro ipow_mono) simp_all
  also have "\<dots> \<le> c" using ilog_bounds[of 2 c] assms(1) by simp
  finally have "ipow 2 t / ipow 2 u \<le> c / ipow 2 u" using p by (simp add: divide_right_mono)
  moreover have "ipow 2 t / ipow 2 u = ipow 2 (t - u)" by (rule ipow_minus) simp
  moreover have "ipow 2 (t - u) = of_int (2 ^ nat (t - u))" using assms(4) by (simp add: ipow_of_int)
  ultimately have "of_int (2 ^ nat (t - u)) \<le> c / ipow 2 u" by simp
  then have "2 ^ nat (t - u) \<le> round_half_even (c / ipow 2 u)"
    by (rule round_half_even_ge_int)
  then have A: "(of_int (2 ^ nat (t - u)) :: rat) \<le> of_int (round_half_even (c / ipow 2 u))"
    by (simp only: of_int_le_iff)
  have B: "ipow 2 (t - u) = of_int (2 ^ nat (t - u))"
    using assms(4) by (simp add: ipow_of_int)
  have "ipow 2 (t - u) \<le> of_int (round_half_even (c / ipow 2 u))"
    unfolding B by (rule A)
  from mult_right_mono[OF this less_imp_le[OF p]]
  have C: "ipow 2 (t - u) * ipow 2 u \<le> of_int (round_half_even (c / ipow 2 u)) * ipow 2 u" .
  have "ipow 2 (t - u) * ipow 2 u = ipow 2 ((t - u) + u)"
    by (rule ipow_plus[symmetric]) simp
  then have "ipow 2 (t - u) * ipow 2 u = ipow 2 t" by simp
  with C show ?thesis unfolding rounded_def Let_def assms(2)[symmetric] by simp
qed

lemma rounded_mono:
  assumes "0 < a" and "a \<le> c"
  shows "rounded a \<le> rounded c"
proof -
  define ua where "ua = max (ilog 2 a - 52) (- 1074)"
  define uc where "uc = max (ilog 2 c - 52) (- 1074)"
  have c: "0 < c" using assms by simp
  have il: "ilog 2 a \<le> ilog 2 c" using assms by (intro ilog_mono) simp_all
  then have le: "ua \<le> uc" unfolding ua_def uc_def by simp
  show ?thesis
  proof (cases "ua = uc")
    case True
    have p: "0 < ipow 2 uc" by (intro ipow_pos) simp
    have "a / ipow 2 uc \<le> c / ipow 2 uc" using assms(2) p by (simp add: divide_right_mono)
    then have "round_half_even (a / ipow 2 uc) \<le> round_half_even (c / ipow 2 uc)"
      by (rule round_half_even_mono)
    then have "(of_int (round_half_even (a / ipow 2 uc)) :: rat)
        \<le> of_int (round_half_even (c / ipow 2 uc))" by (simp only: of_int_le_iff)
    then have "of_int (round_half_even (a / ipow 2 uc)) * ipow 2 uc
        \<le> of_int (round_half_even (c / ipow 2 uc)) * ipow 2 uc"
      using p by (simp add: mult_right_mono)
    then show ?thesis
      unfolding rounded_def Let_def ua_def[symmetric] uc_def[symmetric] True .
  next
    case False
    with le have lt: "ua < uc" by simp
    then have uc: "uc = ilog 2 c - 52" unfolding ua_def uc_def by linarith
    from lt have ea: "ilog 2 a + 1 \<le> ilog 2 c" unfolding ua_def uc_def by linarith
    have "ua \<le> ilog 2 c" using lt uc by simp
    from rounded_upper[OF assms(1) ua_def ea this]
    have "rounded a \<le> ipow 2 (ilog 2 c)" .
    also have "\<dots> \<le> rounded c"
      by (rule rounded_lower[OF c uc_def]) (simp_all add: uc)
    finally show ?thesis .
  qed
qed

lemma rnd64_between:
  assumes "0 < a" and "a \<le> b" and "b \<le> c"
    and "rnd64 False a = Fin False q" and "rnd64 False c = Fin False q"
  shows "rnd64 False b = Fin False q"
proof -
  have b: "0 < b" and c: "0 < c" using assms by simp_all
  from assms(4) assms(1) have ra: "rounded a = q" "\<not> ipow 2 1024 \<le> rounded a"
    by (auto simp: rnd64_rounded split: if_splits)
  from assms(5) c have rc: "rounded c = q" "\<not> ipow 2 1024 \<le> rounded c"
    by (auto simp: rnd64_rounded split: if_splits)
  have "rounded a \<le> rounded b" by (rule rounded_mono[OF assms(1,2)])
  moreover have "rounded b \<le> rounded c" by (rule rounded_mono[OF b assms(3)])
  ultimately have "rounded b = q" using ra(1) rc(1) by simp
  with rc b show ?thesis by (simp add: rnd64_rounded)
qed

subsection \<open>The search for the shortest decimal\<close>

lemma ipow2_as_ipow10: "ipow 2 (- int n) = of_int (5 ^ n) * ipow 10 (- int n)"
proof (cases "n = 0")
  case True
  then show ?thesis by simp
next
  case False
  have "(10::rat) ^ n = 2 ^ n * 5 ^ n" by (simp add: power_mult_distrib[symmetric])
  with False show ?thesis by (simp add: ipow_neg)
qed

lemma float64_grid:
  assumes "rnd64 False q = Fin False q" and "0 < q"
  shows "\<exists>k. q = of_int k * ipow 10 (- 1074)"
proof -
  define u where "u = max (ilog 2 q - 52) (- 1074)"
  define r where "r = round_half_even (q / ipow 2 u)"
  define N :: nat where "N = 1074"
  have N: "- int N = - 1074" by (simp add: N_def)
  from assms have "rounded q = q" by (auto simp: rnd64_rounded split: if_splits)
  then have q: "q = of_int r * ipow 2 u"
    unfolding rounded_def Let_def u_def[symmetric] r_def[symmetric] by simp
  have u: "0 \<le> u + int N" unfolding u_def N_def by simp
  have "u = (u + int N) + (- int N)" by simp
  then have "ipow 2 u = ipow 2 ((u + int N) + (- int N))" by (rule arg_cong)
  also have "\<dots> = ipow 2 (u + int N) * ipow 2 (- int N)" by (rule ipow_plus) simp
  finally have 1: "ipow 2 u = ipow 2 (u + int N) * ipow 2 (- int N)" .
  have 2: "ipow 2 (u + int N) = of_int (2 ^ nat (u + int N))"
    using u by (simp add: ipow_of_int)
  have 3: "ipow 2 (- int N) = of_int (5 ^ N) * ipow 10 (- int N)"
    by (rule ipow2_as_ipow10)
  have "q = of_int (r * (2 ^ nat (u + int N) * 5 ^ N)) * ipow 10 (- int N)"
    unfolding q 1 2 3 by (simp only: of_int_mult mult.assoc)
  then have "\<exists>k. q = of_int k * ipow 10 (- int N)" ..
  then show ?thesis unfolding N .
qed

lemma shortest_try_exact:
  assumes "rnd64 False q = Fin False q" and "0 < q" and "ilog 10 q - int n + 1 = - 1074"
  shows "shortest_try q n \<noteq> None"
proof -
  from float64_grid[OF assms(1,2)] obtain k where k: "q = of_int k * ipow 10 (- 1074)" ..
  have p: "0 < ipow 10 (- 1074)" by (intro ipow_pos) simp
  from k p have "q / ipow 10 (- 1074) = of_int k" by simp
  then have "\<lfloor>q / ipow 10 (- 1074)\<rfloor> = k" by simp
  with k have "of_int \<lfloor>q / ipow 10 (- 1074)\<rfloor> * ipow 10 (- 1074) = q" by simp
  with assms(1) have "rnd64 False (of_int \<lfloor>q / ipow 10 (- 1074)\<rfloor> * ipow 10 (- 1074)) = Fin False q"
    by simp
  then show ?thesis unfolding shortest_try_def Let_def assms(3) by simp
qed

lemma shortest_try_sound:
  assumes "shortest_try q n = Some (d, x)"
  shows "rnd64 False (of_int d * ipow 10 x) = Fin False q" and "x = ilog 10 q - int n + 1"
  using assms round_half_even_cases[of "q / ipow 10 (ilog 10 q - int n + 1)"]
  by (auto simp: shortest_try_def Let_def split: if_splits)

lemma shortest_from_first:
  assumes "n \<le> m" and "m < n + fuel" and "shortest_try q m \<noteq> None"
  shows "\<exists>j. n \<le> j \<and> j \<le> m \<and> shortest_try q j = Some (shortest_from q n fuel)"
  using assms
proof (induction fuel arbitrary: n)
  case 0
  then show ?case by simp
next
  case (Suc fuel)
  show ?case
  proof (cases "shortest_try q n")
    case (Some r)
    then have "shortest_try q n = Some (shortest_from q n (Suc fuel))" by simp
    with Suc.prems(1) show ?thesis by blast
  next
    case None
    with Suc.prems(3) have "n \<noteq> m" by auto
    with Suc.prems have "Suc n \<le> m" "m < Suc n + fuel" by simp_all
    from Suc.IH[OF this Suc.prems(3)] obtain j where
      "Suc n \<le> j" "j \<le> m" "shortest_try q j = Some (shortest_from q (Suc n) fuel)" by blast
    moreover have "shortest_from q n (Suc fuel) = shortest_from q (Suc n) fuel"
      using None by simp
    ultimately show ?thesis by (metis Suc_leD)
  qed
qed

lemma ilog10_float64:
  assumes "rnd64 False q = Fin False q" and "0 < q"
  shows "- 1074 \<le> ilog 10 q"
proof -
  from float64_grid[OF assms] obtain k where k: "q = of_int k * ipow 10 (- 1074)" ..
  have p: "0 < ipow 10 (- 1074)" by (intro ipow_pos) simp
  from k p assms(2) have "0 < (of_int k :: rat)" by (simp add: zero_less_mult_iff)
  then have "1 \<le> k" by simp
  then have "(1::rat) \<le> of_int k" by (simp only: of_int_1_le_iff)
  from mult_right_mono[OF this less_imp_le[OF p]] k have "ipow 10 (- 1074) \<le> q" by simp
  then show ?thesis by (intro ilog_ge) simp_all
qed

text \<open>The search of \<open>shortest\<close> ends at a decimal that was tried.\<close>

lemma shortest_found:
  assumes "rnd64 False q = Fin False q" and "0 < q"
  shows "\<exists>j. 1 \<le> j \<and> j \<le> nat (ilog 10 q + 1075)
           \<and> shortest_try q j = Some (shortest_from q 1 (nat (ilog 10 q + 1075)))"
proof -
  define F where "F = nat (ilog 10 q + 1075)"
  from ilog10_float64[OF assms] have F: "int F = ilog 10 q + 1075" "1 \<le> F"
    unfolding F_def by simp_all
  have "shortest_try q F \<noteq> None"
    by (rule shortest_try_exact[OF assms]) (simp add: F)
  from shortest_from_first[OF F(2) _ this, of F] show ?thesis
    unfolding F_def by simp
qed

lemma strip_zeros_props:
  assumes "0 < d" and "strip_zeros d x = (d', x')"
  shows "0 < d' \<and> d' mod 10 \<noteq> 0 \<and> x \<le> x' \<and> d = d' * 10 ^ nat (x' - x)"
  using assms
proof (induction d x rule: strip_zeros.induct)
  case (1 d x)
  show ?case
  proof (cases "d mod 10 = 0")
    case False
    with 1(2,3) show ?thesis by (simp add: strip_zeros.simps[of d x])
  next
    case True
    with 1(2) have pos: "0 < d div 10" by (simp add: pos_imp_zdiv_pos_iff) presburger
    from True 1(2,3) have rec: "strip_zeros (d div 10) (x + 1) = (d', x')"
      by (simp add: strip_zeros.simps[of d x])
    from 1(1)[OF _ pos rec] True 1(2) have
      ih: "0 < d'" "d' mod 10 \<noteq> 0" "x + 1 \<le> x'" "d div 10 = d' * 10 ^ nat (x' - (x + 1))"
      by simp_all
    from ih(3) have "nat (x' - x) = Suc (nat (x' - (x + 1)))" by simp
    moreover from True have "d = (d div 10) * 10" by presburger
    ultimately have "d = d' * 10 ^ nat (x' - x)" using ih(4) by simp
    with ih show ?thesis by simp
  qed
qed

lemma strip_zeros_value:
  assumes "0 < d" and "strip_zeros d x = (d', x')"
  shows "of_int d' * ipow 10 x' = of_int d * ipow 10 x"
proof -
  from strip_zeros_props[OF assms] have le: "x \<le> x'" and d: "d = d' * 10 ^ nat (x' - x)"
    by simp_all
  from le have "x' = x + int (nat (x' - x))" by simp
  then have "ipow 10 x' = ipow 10 (x + int (nat (x' - x)))" by (rule arg_cong)
  also have "\<dots> = of_nat 10 ^ nat (x' - x) * ipow 10 x" by (rule ipow_add) simp
  finally have "of_int d' * ipow 10 x' = (of_int d' * 10 ^ nat (x' - x)) * ipow 10 x" by simp
  also have "of_int d' * 10 ^ nat (x' - x) = (of_int (d' * 10 ^ nat (x' - x)) :: rat)" by simp
  finally show ?thesis unfolding d[symmetric] .
qed

lemma scaled_ge_1:
  assumes "0 < q" and "0 < n"
  shows "1 \<le> q / ipow 10 (ilog 10 q - int n + 1)"
proof -
  have "ipow 10 (ilog 10 q - int n + 1) \<le> ipow 10 (ilog 10 q)"
    using assms(2) by (intro ipow_mono) simp_all
  also have "\<dots> \<le> q" using ilog_bounds[of 10 q] assms(1) by simp
  finally show ?thesis using ipow_pos[of 10 "ilog 10 q - int n + 1"] by simp
qed

lemma shortest_try_pos:
  assumes "0 < q" and "0 < n" and "shortest_try q n = Some (d, x)"
  shows "0 < d"
proof -
  let ?y = "q / ipow 10 (ilog 10 q - int n + 1)"
  have "1 \<le> \<lfloor>?y\<rfloor>" using scaled_ge_1[OF assms(1,2)] by (simp add: le_floor_iff)
  moreover have "\<lfloor>?y\<rfloor> \<le> round_half_even ?y" using round_half_even_cases[of ?y] by auto
  moreover from assms(3) have "d = \<lfloor>?y\<rfloor> \<or> d = \<lfloor>?y\<rfloor> + 1 \<or> d = round_half_even ?y"
    by (auto simp: shortest_try_def Let_def split: if_splits)
  ultimately show ?thesis by linarith
qed

text \<open>The digits that are tried with \<open>n\<close> places are at most \<open>10^n\<close>.\<close>

lemma shortest_try_bound:
  assumes "0 < q" and "0 < n" and "shortest_try q n = Some (d, x)"
  shows "d \<le> 10 ^ n"
proof -
  define x0 where "x0 = ilog 10 q - int n + 1"
  let ?y = "q / ipow 10 x0"
  have p: "0 < ipow 10 x0" by (intro ipow_pos) simp
  have "q < ipow 10 (ilog 10 q + 1)" using ilog_bounds[of 10 q] assms(1) by simp
  then have "?y < ipow 10 (ilog 10 q + 1) / ipow 10 x0" using p by (simp add: divide_strict_right_mono)
  also have "\<dots> = ipow 10 ((ilog 10 q + 1) - x0)" by (rule ipow_minus) simp
  also have "(ilog 10 q + 1) - x0 = int n" unfolding x0_def by simp
  also have "ipow 10 (int n) = of_int (10 ^ n)" by (simp add: ipow_nonneg)
  finally have "?y < of_int (10 ^ n)" .
  then have "\<lfloor>?y\<rfloor> < 10 ^ n" by (simp only: floor_less_iff)
  moreover have "round_half_even ?y \<le> \<lfloor>?y\<rfloor> + 1" using round_half_even_cases[of ?y] by auto
  moreover from assms(3) have "d = \<lfloor>?y\<rfloor> \<or> d = \<lfloor>?y\<rfloor> + 1 \<or> d = round_half_even ?y"
    by (auto simp: shortest_try_def Let_def x0_def split: if_splits)
  ultimately show ?thesis by linarith
qed

text \<open>The decimal that \<open>shortest\<close> returns, and the number of digits that were tried.\<close>

lemma shortest_result:
  assumes "rnd64 False q = Fin False q" and "0 < q" and "shortest q = (d, x)"
  shows "\<exists>j d0 x0. 1 \<le> j \<and> j \<le> nat (ilog 10 q + 1075) \<and> shortest_try q j = Some (d0, x0)
           \<and> 0 < d0 \<and> strip_zeros d0 x0 = (d, x)"
proof -
  from shortest_found[OF assms(1,2)] obtain j where
    j: "1 \<le> j" "j \<le> nat (ilog 10 q + 1075)"
       "shortest_try q j = Some (shortest_from q 1 (nat (ilog 10 q + 1075)))" by blast
  obtain d0 x0 where s: "shortest_from q 1 (nat (ilog 10 q + 1075)) = (d0, x0)"
    by (cases "shortest_from q 1 (nat (ilog 10 q + 1075))")
  from j(3) have t: "shortest_try q j = Some (d0, x0)" unfolding s .
  from j(1) have "0 < j" by simp
  from shortest_try_pos[OF assms(2) this t] have p: "0 < d0" .
  from assms(3) have z: "strip_zeros d0 x0 = (d, x)"
    unfolding shortest_def s by (simp only: prod.case)
  from j(1,2) t p z show ?thesis by blast
qed

lemma shortest_props:
  assumes "rnd64 False q = Fin False q" and "0 < q" and "shortest q = (d, x)"
  shows "0 < d" and "d mod 10 \<noteq> 0"
proof -
  from shortest_result[OF assms] obtain j d0 x0 where
    "0 < d0" "strip_zeros d0 x0 = (d, x)" by blast
  from strip_zeros_props[OF this] show "0 < d" and "d mod 10 \<noteq> 0" by simp_all
qed

text \<open>The decimal that \<open>shortest\<close> returns rounds to the value.\<close>

lemma shortest_reads_back:
  assumes "rnd64 False q = Fin False q" and "0 < q" and "shortest q = (d, x)"
  shows "rnd64 False (of_int d * ipow 10 x) = Fin False q"
proof -
  from shortest_result[OF assms] obtain j d0 x0 where
    t: "shortest_try q j = Some (d0, x0)" and p: "0 < d0" and z: "strip_zeros d0 x0 = (d, x)"
    by blast
  from strip_zeros_value[OF p z] have "of_int d * ipow 10 x = of_int d0 * ipow 10 x0" .
  with shortest_try_sound(1)[OF t] show ?thesis by simp
qed

text \<open>
  If a decimal with at most \<open>n\<close> digits rounds to \<open>q\<close>, then one of the two decimals with
  \<open>n\<close> places around \<open>q\<close> does: it lies between that decimal and \<open>q\<close>.
\<close>

lemma shortest_try_succeeds:
  assumes fl: "rnd64 False q = Fin False q" and q: "0 < q"
    and d: "0 < d'" "d' < 10 ^ n" and n: "0 < n"
    and r: "rnd64 False (of_int d' * ipow 10 x') = Fin False q"
  shows "shortest_try q n \<noteq> None"
proof -
  define x where "x = ilog 10 q - int n + 1"
  define y where "y = q / ipow 10 x"
  define lo where "lo = \<lfloor>y\<rfloor>"
  define r' where "r' = of_int d' * ipow 10 x'"
  have p: "0 < ipow 10 x" by (intro ipow_pos) simp
  have p': "0 < ipow 10 x'" by (intro ipow_pos) simp
  have r'pos: "0 < r'" unfolding r'_def using d(1) p' by simp
  have qy: "q = y * ipow 10 x" unfolding y_def using p by simp
  have lo_le: "of_int lo * ipow 10 x \<le> q"
  proof -
    have "of_int lo \<le> y" unfolding lo_def by simp
    from mult_right_mono[OF this less_imp_le[OF p]] show ?thesis unfolding qy[symmetric] .
  qed
  have hi_gt: "q < of_int (lo + 1) * ipow 10 x"
  proof -
    have "y < of_int (lo + 1)" unfolding lo_def by linarith
    from mult_strict_right_mono[OF this p] show ?thesis unfolding qy[symmetric] .
  qed
  have "rnd64 False (of_int lo * ipow 10 x) = Fin False q
      \<or> rnd64 False (of_int (lo + 1) * ipow 10 x) = Fin False q"
  proof (cases "x' < x")
    case True
    have "of_int d' < (of_int (10 ^ n) :: rat)" using d(2) by (simp only: of_int_less_iff)
    also have "of_int (10 ^ n) = ipow 10 (int n)" by (simp add: ipow_nonneg)
    finally have "r' < ipow 10 (int n) * ipow 10 x'"
      unfolding r'_def using p' by (simp add: mult_strict_right_mono)
    also have "\<dots> = ipow 10 (int n + x')" by (rule ipow_plus[symmetric]) simp
    also have "\<dots> \<le> ipow 10 (ilog 10 q)" using True unfolding x_def by (intro ipow_mono) simp_all
    finally have lt: "r' < ipow 10 (ilog 10 q)" .
    have "ilog 10 q = int (n - 1) + x" unfolding x_def using n by simp
    then have "ipow 10 (ilog 10 q) = ipow 10 (int (n - 1) + x)" by (rule arg_cong)
    also have "\<dots> = ipow 10 (int (n - 1)) * ipow 10 x" by (rule ipow_plus) simp
    also have "ipow 10 (int (n - 1)) = of_int (10 ^ (n - 1))" by (simp add: ipow_nonneg)
    finally have g: "ipow 10 (ilog 10 q) = of_int (10 ^ (n - 1)) * ipow 10 x" .
    have "ipow 10 (ilog 10 q) \<le> q" using ilog_bounds[of 10 q] q by simp
    then have "of_int (10 ^ (n - 1)) * ipow 10 x \<le> y * ipow 10 x" unfolding g qy[symmetric] .
    then have "of_int (10 ^ (n - 1)) \<le> y" using p by (simp only: mult_le_cancel_right_pos)
    then have "10 ^ (n - 1) \<le> lo" unfolding lo_def by (simp only: le_floor_iff)
    then have "(of_int (10 ^ (n - 1)) :: rat) \<le> of_int lo" by (simp only: of_int_le_iff)
    from mult_right_mono[OF this less_imp_le[OF p]]
    have "ipow 10 (ilog 10 q) \<le> of_int lo * ipow 10 x" unfolding g .
    with lt have "r' \<le> of_int lo * ipow 10 x" by simp
    from rnd64_between[OF r'pos this lo_le r[folded r'_def] fl] show ?thesis ..
  next
    case False
    define z where "z = d' * 10 ^ nat (x' - x)"
    from False have "x' = x + int (nat (x' - x))" by simp
    then have "ipow 10 x' = ipow 10 (x + int (nat (x' - x)))" by (rule arg_cong)
    also have "\<dots> = of_nat 10 ^ nat (x' - x) * ipow 10 x" by (rule ipow_add) simp
    finally have "r' = (of_int d' * 10 ^ nat (x' - x)) * ipow 10 x" unfolding r'_def by simp
    also have "of_int d' * 10 ^ nat (x' - x) = (of_int z :: rat)" unfolding z_def by simp
    finally have rz: "r' = of_int z * ipow 10 x" .
    show ?thesis
    proof (cases "r' \<le> q")
      case True
      then have "of_int z * ipow 10 x \<le> y * ipow 10 x" unfolding rz qy[symmetric] .
      then have "of_int z \<le> y" using p by (simp only: mult_le_cancel_right_pos)
      then have "z \<le> lo" unfolding lo_def by (simp only: le_floor_iff)
      then have "(of_int z :: rat) \<le> of_int lo" by (simp only: of_int_le_iff)
      from mult_right_mono[OF this less_imp_le[OF p]]
      have "r' \<le> of_int lo * ipow 10 x" unfolding rz .
      from rnd64_between[OF r'pos this lo_le r[folded r'_def] fl] show ?thesis ..
    next
      case False
      then have "y * ipow 10 x < of_int z * ipow 10 x" unfolding rz qy[symmetric] by simp
      then have "y < of_int z" using p by (simp only: mult_less_cancel_right_pos)
      moreover have "of_int lo \<le> y" unfolding lo_def by simp
      ultimately have "(of_int lo :: rat) < of_int z" by simp
      then have "lo < z" by (simp only: of_int_less_iff)
      then have "lo + 1 \<le> z" by simp
      then have "(of_int (lo + 1) :: rat) \<le> of_int z" by (simp only: of_int_le_iff)
      from mult_right_mono[OF this less_imp_le[OF p]]
      have "of_int (lo + 1) * ipow 10 x \<le> r'" unfolding rz .
      from rnd64_between[OF q less_imp_le[OF hi_gt] this fl r[folded r'_def]] show ?thesis ..
    qed
  qed
  then show ?thesis
    unfolding shortest_try_def Let_def x_def[symmetric] y_def[symmetric] lo_def[symmetric]
    by auto
qed

lemma digits10_nonempty: "digits10 n \<noteq> []"
  by (subst digits10.simps) simp

lemma digits10_length_le_iff: "0 < k \<Longrightarrow> length (digits10 n) \<le> k \<longleftrightarrow> n < 10 ^ k"
proof (induction n arbitrary: k rule: digits10.induct)
  case (1 n)
  show ?case
  proof (cases "n < 10")
    case True
    have "(10::nat) ^ 1 \<le> 10 ^ k" using 1(2) by (intro power_increasing) simp_all
    with True have "n < 10 ^ k" by simp
    moreover have "length (digits10 n) = 1" using True by (subst digits10.simps) simp
    ultimately show ?thesis using 1(2) by simp
  next
    case False
    have len: "length (digits10 n) = Suc (length (digits10 (n div 10)))"
      using False by (subst digits10.simps) simp
    show ?thesis
    proof (cases "k = 1")
      case True
      have "0 < length (digits10 (n div 10))" using digits10_nonempty[of "n div 10"] by simp
      with len False True show ?thesis by simp
    next
      case k: False
      with 1(2) obtain k' where k': "k = Suc k'" "0 < k'" by (cases k) auto
      from 1(1)[OF False k'(2)]
      have "length (digits10 (n div 10)) \<le> k' \<longleftrightarrow> n div 10 < 10 ^ k'" .
      also have "\<dots> \<longleftrightarrow> n < 10 ^ k' * 10" by (rule div_less_iff_less_mult) simp
      finally show ?thesis unfolding len k'(1) by (simp add: mult.commute)
    qed
  qed
qed

text \<open>The search stops at the first number of places that succeeds.\<close>

lemma shortest_upto:
  assumes fl: "rnd64 False q = Fin False q" and q: "0 < q" and sh: "shortest q = (d, x)"
    and m: "1 \<le> m" "shortest_try q m \<noteq> None"
  shows "\<exists>j d0 x0. 1 \<le> j \<and> j \<le> m \<and> shortest_try q j = Some (d0, x0)
           \<and> 0 < d0 \<and> strip_zeros d0 x0 = (d, x)"
proof -
  define F where "F = nat (ilog 10 q + 1075)"
  have "\<exists>j. 1 \<le> j \<and> j \<le> m \<and> shortest_try q j = Some (shortest_from q 1 F)"
  proof (cases "m \<le> F")
    case True
    then have "m < 1 + F" by simp
    from shortest_from_first[OF m(1) this m(2)] show ?thesis .
  next
    case False
    from shortest_found[OF fl q] obtain j where
      "1 \<le> j" "j \<le> F" "shortest_try q j = Some (shortest_from q 1 F)"
      unfolding F_def by blast
    with False show ?thesis by (intro exI[of _ j]) simp
  qed
  then obtain j where j: "1 \<le> j" "j \<le> m" "shortest_try q j = Some (shortest_from q 1 F)"
    by blast
  obtain d0 x0 where s: "shortest_from q 1 F = (d0, x0)" by (cases "shortest_from q 1 F")
  from j(3) have t: "shortest_try q j = Some (d0, x0)" unfolding s .
  from j(1) have "0 < j" by simp
  from shortest_try_pos[OF q this t] have p: "0 < d0" .
  from sh have z: "strip_zeros d0 x0 = (d, x)"
    unfolding shortest_def F_def[symmetric] s by (simp only: prod.case)
  from j(1,2) t p z show ?thesis by blast
qed

text \<open>No decimal with fewer digits rounds to the value.\<close>

lemma shortest_fewest:
  assumes fl: "rnd64 False q = Fin False q" and q: "0 < q" and sh: "shortest q = (d, x)"
    and d': "0 < d'" and r: "rnd64 False (of_int d' * ipow 10 x') = Fin False q"
  shows "length (digits10 (nat d)) \<le> length (digits10 (nat d'))"
proof -
  define n where "n = length (digits10 (nat d'))"
  have n: "0 < n" unfolding n_def using digits10_nonempty[of "nat d'"] by simp
  from digits10_length_le_iff[OF n, of "nat d'"] have "nat d' < 10 ^ n" unfolding n_def by simp
  then have "int (nat d') < int (10 ^ n)" by (simp only: of_nat_less_iff)
  with d' have dn: "d' < 10 ^ n" by simp
  have "shortest_try q n \<noteq> None" by (rule shortest_try_succeeds[OF fl q d' dn n r])
  with shortest_upto[OF fl q sh, of n] n obtain j d0 x0 where
    j: "1 \<le> j" "j \<le> n" and t: "shortest_try q j = Some (d0, x0)"
    and p: "0 < d0" and z: "strip_zeros d0 x0 = (d, x)" by auto
  from j(1) have j0: "0 < j" by simp
  from shortest_try_bound[OF q j0 t] have b: "d0 \<le> 10 ^ j" .
  from strip_zeros_props[OF p z] have
    dp: "0 < d" "d mod 10 \<noteq> 0" and e: "d0 = d * 10 ^ nat (x - x0)" by simp_all
  have "d \<le> d * 10 ^ nat (x - x0)" using dp(1) by simp
  with e b have "d \<le> 10 ^ j" by simp
  moreover have "d \<noteq> 10 ^ j"
  proof
    assume "d = 10 ^ j"
    moreover from j0 obtain j' where "j = Suc j'" by (cases j) auto
    ultimately have "d mod 10 = 0" by simp
    with dp(2) show False ..
  qed
  ultimately have "d < 10 ^ j" by simp
  with dp(1) have "nat d < 10 ^ j" by (simp add: nat_less_iff)
  with digits10_length_le_iff[OF j0, of "nat d"] have "length (digits10 (nat d)) \<le> j" by simp
  with j(2) show ?thesis unfolding n_def by simp
qed

text \<open>A whole number is written without places after the point.\<close>

lemma shortest_whole:
  assumes fl: "rnd64 False q = Fin False q" and q: "0 < q" and sh: "shortest q = (d, x)"
    and k: "q = of_int k"
  shows "0 \<le> x"
proof -
  from q k have "1 \<le> k" by simp
  then have "(1::rat) \<le> of_int k" by (simp only: of_int_1_le_iff)
  then have "ipow 10 0 \<le> q" unfolding k by simp
  then have i: "0 \<le> ilog 10 q" by (intro ilog_ge) simp_all
  define m where "m = nat (ilog 10 q + 1)"
  have m: "1 \<le> m" "ilog 10 q - int m + 1 = 0" unfolding m_def using i by simp_all
  have "rnd64 False (of_int \<lfloor>q / ipow 10 0\<rfloor> * ipow 10 0) = Fin False q"
    using fl unfolding k by simp
  then have "shortest_try q m \<noteq> None" unfolding shortest_try_def Let_def m(2) by simp
  from shortest_upto[OF fl q sh m(1) this] obtain j d0 x0 where
    j: "1 \<le> j" "j \<le> m" and t: "shortest_try q j = Some (d0, x0)"
    and p: "0 < d0" and z: "strip_zeros d0 x0 = (d, x)" by blast
  from shortest_try_sound(2)[OF t] j(2) m(2) have "0 \<le> x0" by simp
  with strip_zeros_props[OF p z] show ?thesis by simp
qed

subsection \<open>The text of a decimal\<close>

lemma digit_char_in: "d < 10 \<Longrightarrow> digit_char d \<in> set ''0123456789''"
  unfolding digit_char_def by (rule nth_mem) simp

lemma digit_cases:
  assumes "d < 10"
  shows "d = 0 \<or> d = 1 \<or> d = 2 \<or> d = 3 \<or> d = 4 \<or> d = 5 \<or> d = 6 \<or> d = 7 \<or> d = 8 \<or> d = (9::nat)"
  using assms by arith

lemma digit_char_nonzero:
  assumes "d < 10" and "d \<noteq> 0" shows "digit_char d \<in> set ''123456789''"
  using digit_cases[OF assms(1)] assms(2) by (auto simp: digit_char_def)

lemma digit_char_not_0:
  assumes "d < 10" and "d \<noteq> 0" shows "digit_char d \<noteq> CHR ''0''"
  using digit_char_nonzero[OF assms] by auto

lemma digit_value_char: "d < 10 \<Longrightarrow> digit_value (digit_char d) = d"
  using digit_cases[of d] by (auto simp: digit_char_def digit_value_def)

lemma digit_value_0 [simp]: "digit_value CHR ''0'' = 0"
  by (simp add: digit_value_def)

lemma digits10_digits: "set (digits10 n) \<subseteq> set ''0123456789''"
proof (induction n rule: digits10.induct)
  case (1 n)
  show ?case
  proof (cases "n < 10")
    case True
    then show ?thesis using digit_char_in[of n] by (subst digits10.simps) simp
  next
    case False
    have "n mod 10 < 10" by simp
    from digit_char_in[OF this] 1[OF False] False show ?thesis
      by (subst digits10.simps) simp
  qed
qed

lemma digits10_last: "digits10 n \<noteq> [] \<and> last (digits10 n) = digit_char (n mod 10)"
  by (subst (1 2) digits10.simps) simp

lemma digits10_no_point: "CHR ''.'' \<notin> set (digits10 n)"
  using digits10_digits[of n] by auto

lemma digits10_is_digits: "is_digits (digits10 n)"
  unfolding is_digits_def using digits10_digits[of n] digits10_nonempty[of n] by simp

lemma digits10_hd: "0 < n \<Longrightarrow> hd (digits10 n) \<noteq> CHR ''0''"
proof (induction n rule: digits10.induct)
  case (1 n)
  show ?case
  proof (cases "n < 10")
    case True
    with 1(2) digit_char_not_0[of n] show ?thesis by (subst digits10.simps) simp
  next
    case False
    then have "0 < n div 10" by simp
    from 1(1)[OF False this] digits10_nonempty[of "n div 10"] False show ?thesis
      by (subst digits10.simps) simp
  qed
qed

lemma digits_value_snoc: "digits_value (t @ [c]) = 10 * digits_value t + digit_value c"
  by (simp add: digits_value_def)

lemma digits_value_digits10: "digits_value (digits10 n) = n"
proof (induction n rule: digits10.induct)
  case (1 n)
  show ?case
  proof (cases "n < 10")
    case True
    then show ?thesis
      by (subst digits10.simps) (simp add: digits_value_def digit_value_char)
  next
    case False
    have "n mod 10 < 10" by simp
    from digit_value_char[OF this] 1[OF False] False show ?thesis
      by (subst digits10.simps) (simp add: digits_value_snoc)
  qed
qed

lemma foldl_zeros:
  "foldl (\<lambda>a c. 10 * a + digit_value c) a (replicate k CHR ''0'') = a * 10 ^ k"
  by (induction k arbitrary: a) simp_all

lemma digits_value_trailing: "digits_value (t @ replicate k CHR ''0'') = digits_value t * 10 ^ k"
  by (simp add: digits_value_def foldl_zeros)

lemma digits_value_leading: "digits_value (replicate k CHR ''0'' @ t) = digits_value t"
  by (simp add: digits_value_def foldl_zeros)

lemma is_digits_zeros: "is_digits (replicate k CHR ''0'' @ digits10 n)"
  using digits10_is_digits[of n] by (auto simp: is_digits_def)

lemma is_digits_take:
  assumes "is_digits t" and "0 < n" shows "is_digits (take n t)"
proof -
  from assms(1) have ne: "t \<noteq> []" and sub: "set t \<subseteq> set ''0123456789''"
    unfolding is_digits_def by blast+
  have "take n t \<noteq> []" using ne assms(2) by (cases t) auto
  moreover have "set (take n t) \<subseteq> set ''0123456789''"
    by (rule subset_trans[OF set_take_subset sub])
  ultimately show ?thesis unfolding is_digits_def by blast
qed

lemma is_digits_drop:
  assumes "is_digits t" and "n < length t" shows "is_digits (drop n t)"
proof -
  from assms(1) have sub: "set t \<subseteq> set ''0123456789''"
    unfolding is_digits_def by blast
  have "drop n t \<noteq> []" using assms(2) by simp
  moreover have "set (drop n t) \<subseteq> set ''0123456789''"
    by (rule subset_trans[OF set_drop_subset sub])
  ultimately show ?thesis unfolding is_digits_def by blast
qed

lemma split_at_point:
  assumes "CHR ''.'' \<notin> set a"
  shows "takeWhile (\<lambda>c. c \<noteq> CHR ''.'') (a @ CHR ''.'' # b) = a"
    and "dropWhile (\<lambda>c. c \<noteq> CHR ''.'') (a @ CHR ''.'' # b) = CHR ''.'' # b"
  using assms by (induction a) auto

text \<open>The text of a decimal is read as its value.\<close>

lemma read_decimal_fmt_f:
  assumes "0 < d"
  shows "read_decimal (fmt_f (d, x)) = Some (of_int d * ipow 10 x)"
proof -
  let ?ds = "digits10 (nat d)"
  have np: "\<And>c. c \<in> set ?ds \<Longrightarrow> c \<noteq> CHR ''.''" using digits10_no_point[of "nat d"] by auto
  have dg: "is_digits ?ds" by (rule digits10_is_digits)
  have v: "(of_nat (digits_value ?ds) :: rat) = of_int d"
    using assms by (simp add: digits_value_digits10)
  show ?thesis
  proof (cases "0 \<le> x")
    case True
    let ?t = "?ds @ replicate (nat x) CHR ''0''"
    have a: "\<And>c. c \<in> set ?t \<Longrightarrow> c \<noteq> CHR ''.''" using np by auto
    have tw: "takeWhile (\<lambda>c. c \<noteq> CHR ''.'') ?t = ?t" using a by (simp only: takeWhile_eq_all_conv) blast
    have dw: "dropWhile (\<lambda>c. c \<noteq> CHR ''.'') ?t = []" using a by (simp only: dropWhile_eq_Nil_conv) blast
    have id: "is_digits ?t" using dg by (auto simp: is_digits_def)
    have "(of_nat (digits_value ?t) :: rat) = of_int d * ipow 10 x"
      using True v by (simp add: digits_value_trailing ipow_def)
    with True tw dw id show ?thesis by (simp add: fmt_f_def read_decimal_def Let_def)
  next
    case False
    define k where "k = nat (- x)"
    have k: "0 < k" "x = - int k" unfolding k_def using False by simp_all
    have ip: "ipow 10 x = 1 / 10 ^ k" unfolding k(2) using k(1) by (simp add: ipow_neg)
    show ?thesis
    proof (cases "k < length ?ds")
      case True
      let ?a = "take (length ?ds - k) ?ds" and ?b = "drop (length ?ds - k) ?ds"
      have f: "fmt_f (d, x) = ?a @ CHR ''.'' # ?b"
        using False True by (simp add: fmt_f_def Let_def k_def)
      have na: "CHR ''.'' \<notin> set ?a" using digits10_no_point[of "nat d"] by (auto dest: in_set_takeD)
      have tw: "takeWhile (\<lambda>c. c \<noteq> CHR ''.'') (?a @ CHR ''.'' # ?b) = ?a"
        by (rule split_at_point(1)[OF na])
      have dw: "dropWhile (\<lambda>c. c \<noteq> CHR ''.'') (?a @ CHR ''.'' # ?b) = CHR ''.'' # ?b"
        by (rule split_at_point(2)[OF na])
      have ia: "is_digits ?a" using True by (intro is_digits_take[OF dg]) simp
      have ib: "is_digits ?b" using True k(1) by (intro is_digits_drop[OF dg]) simp
      have lb: "length ?b = k" using True by simp
      have "read_decimal (?a @ CHR ''.'' # ?b) = Some (of_nat (digits_value (?a @ ?b)) / 10 ^ length ?b)"
        unfolding read_decimal_def Let_def tw dw using ia ib by simp
      also have "?a @ ?b = ?ds" by simp
      finally show ?thesis unfolding f lb v ip by simp
    next
      case nl: False
      let ?b = "replicate (k - length ?ds) CHR ''0'' @ ?ds"
      have f: "fmt_f (d, x) = ''0'' @ CHR ''.'' # ?b"
        using False nl by (simp add: fmt_f_def Let_def k_def)
      have tw: "takeWhile (\<lambda>c. c \<noteq> CHR ''.'') (''0'' @ CHR ''.'' # ?b) = ''0''" by simp
      have dw: "dropWhile (\<lambda>c. c \<noteq> CHR ''.'') (''0'' @ CHR ''.'' # ?b) = CHR ''.'' # ?b" by simp
      have ia: "is_digits ''0''" by (simp add: is_digits_def)
      have ib: "is_digits ?b" by (rule is_digits_zeros)
      have lb: "length ?b = k" using nl by simp
      have "digits_value (''0'' @ ?b) = digits_value (replicate (Suc (k - length ?ds)) CHR ''0'' @ ?ds)"
        by simp
      also have "\<dots> = digits_value ?ds" by (rule digits_value_leading)
      finally have dv: "digits_value (''0'' @ ?b) = digits_value ?ds" .
      have "read_decimal (''0'' @ CHR ''.'' # ?b)
          = Some (of_nat (digits_value (''0'' @ ?b)) / 10 ^ length ?b)"
        unfolding read_decimal_def Let_def tw dw using ia ib by simp
      then show ?thesis unfolding f lb dv v ip by simp
    qed
  qed
qed

lemma rnd64_sign: "rnd64 s r = Fin s q \<Longrightarrow> rnd64 t r = Fin t q"
  by (auto simp: rnd64_def Let_def split: if_splits)

lemma digit_not_special:
  assumes "c \<in> set ''0123456789''"
  shows "c \<noteq> CHR ''-''" and "c \<noteq> CHR ''N''" and "c \<noteq> CHR ''+''" and "c \<noteq> CHR ''.''"
    and "c \<noteq> CHR ''I''"
  using assms by auto

lemma read_back_digit:
  assumes "c \<in> set ''0123456789''"
  shows "read_back (c # t) = map_option (rnd64 False) (read_decimal (c # t))"
  using digit_not_special[OF assms] by (simp add: read_back_def)

lemma read_back_minus:
  assumes "c \<in> set ''0123456789''"
  shows "read_back (CHR ''-'' # c # t) = map_option (rnd64 True) (read_decimal (c # t))"
  using digit_not_special[OF assms] by (simp add: read_back_def)

lemma digits10_cons: "\<exists>c t. digits10 n = c # t \<and> c \<in> set ''0123456789''"
proof -
  obtain c t where ct: "digits10 n = c # t" using digits10_nonempty[of n] by (cases "digits10 n") auto
  have "c \<in> set (digits10 n)" unfolding ct by simp
  with digits10_digits[of n] have "c \<in> set ''0123456789''" by (rule subsetD)
  with ct show ?thesis by blast
qed

lemma fmt_f_cons: "\<exists>c t. fmt_f (d, x) = c # t \<and> c \<in> set ''0123456789''"
proof -
  let ?ds = "digits10 (nat d)"
  from digits10_cons[of "nat d"] obtain c t where ct: "?ds = c # t" and c: "c \<in> set ''0123456789''"
    by blast
  show ?thesis
  proof (cases "0 \<le> x")
    case True
    then have "fmt_f (d, x) = c # (t @ replicate (nat x) CHR ''0'')"
      by (simp add: fmt_f_def Let_def ct)
    with c show ?thesis by blast
  next
    case False
    show ?thesis
    proof (cases "nat (- x) < length ?ds")
      case True
      then obtain j where j: "length ?ds - nat (- x) = Suc j" by (cases "length ?ds - nat (- x)") auto
      have "take (Suc j) ?ds = c # take j t" unfolding ct by simp
      with False True have "fmt_f (d, x) = c # (take j t @ ''.'' @ drop (Suc j) ?ds)"
        by (simp add: fmt_f_def Let_def j)
      with c show ?thesis by blast
    next
      case nl: False
      with False have "fmt_f (d, x)
          = CHR ''0'' # (''.'' @ replicate (nat (- x) - length ?ds) CHR ''0'' @ ?ds)"
        by (simp add: fmt_f_def Let_def)
      moreover have "CHR ''0'' \<in> set ''0123456789''" by simp
      ultimately show ?thesis by blast
    qed
  qed
qed

text \<open>Reading the text of a value back gives the value.\<close>

lemma read_back_FormatFloat:
  assumes "is_float64 v"
  shows "read_back (FormatFloat_f_shortest v) = Some v"
proof (cases v)
  case NaN
  then show ?thesis by (simp add: read_back_def)
next
  case (Inf s)
  then show ?thesis by (simp add: read_back_def)
next
  case (Fin s q)
  show ?thesis
  proof (cases "q = 0")
    case True
    have z: "CHR ''0'' \<in> set ''0123456789''" by simp
    have "read_decimal ''0'' = Some 0"
      by (simp add: read_decimal_def Let_def is_digits_def digits_value_def)
    with read_back_digit[OF z, of "[]"] read_back_minus[OF z, of "[]"]
    show ?thesis unfolding Fin True by (cases s) simp_all
  next
    case False
    with assms Fin have q: "0 < q" and fl: "rnd64 s q = Fin s q" by simp_all
    from rnd64_sign[OF fl] have fl': "rnd64 False q = Fin False q" .
    obtain d x where sh: "shortest q = (d, x)" by (cases "shortest q")
    from shortest_props(1)[OF fl' q sh] have d: "0 < d" .
    from shortest_reads_back[OF fl' q sh] have "rnd64 False (of_int d * ipow 10 x) = Fin False q" .
    from rnd64_sign[OF this] have rb: "rnd64 s (of_int d * ipow 10 x) = Fin s q" .
    from fmt_f_cons[of d x] obtain c t where ct: "fmt_f (d, x) = c # t"
      and c: "c \<in> set ''0123456789''" by blast
    have rd: "read_decimal (c # t) = Some (of_int d * ipow 10 x)"
      unfolding ct[symmetric] by (rule read_decimal_fmt_f[OF d])
    show ?thesis
    proof (cases s)
      case True
      from False have "FormatFloat_f_shortest v = CHR ''-'' # c # t"
        unfolding Fin by (simp add: sh ct True)
      with read_back_minus[OF c, of t] rd rb show ?thesis unfolding Fin by (simp add: True)
    next
      case sf: False
      from False have "FormatFloat_f_shortest v = c # t"
        unfolding Fin by (simp add: sh ct sf)
      with read_back_digit[OF c, of t] rd rb show ?thesis unfolding Fin by (simp add: sf)
    qed
  qed
qed

lemma strip_leading:
  assumes "t \<noteq> []" and "hd t \<noteq> CHR ''0''"
  shows "dropWhile (\<lambda>c. c = CHR ''0'') (replicate k CHR ''0'' @ t) = t"
proof -
  have "dropWhile (\<lambda>c. c = CHR ''0'') (replicate k CHR ''0'' @ t)
      = dropWhile (\<lambda>c. c = CHR ''0'') t"
    by (rule dropWhile_append2) simp
  also have "\<dots> = t" using assms by (cases t) simp_all
  finally show ?thesis .
qed

lemma strip_trailing:
  assumes "t \<noteq> []" and "last t \<noteq> CHR ''0''"
  shows "rev (dropWhile (\<lambda>c. c = CHR ''0'') (rev (t @ replicate k CHR ''0''))) = t"
proof -
  have "rev (t @ replicate k CHR ''0'') = replicate k CHR ''0'' @ rev t" by simp
  moreover have "dropWhile (\<lambda>c. c = CHR ''0'') (replicate k CHR ''0'' @ rev t) = rev t"
    using assms by (intro strip_leading) (simp_all add: hd_rev)
  ultimately show ?thesis by simp
qed

lemma trim_zeros:
  assumes "t \<noteq> []" and "hd t \<noteq> CHR ''0''" and "last t \<noteq> CHR ''0''"
  shows "rev (dropWhile (\<lambda>c. c = CHR ''0'')
           (rev (dropWhile (\<lambda>c. c = CHR ''0'')
              (replicate j CHR ''0'' @ t @ replicate k CHR ''0'')))) = t"
proof -
  have ne: "t @ replicate k CHR ''0'' \<noteq> []" using assms(1) by simp
  have "hd (t @ replicate k CHR ''0'') \<noteq> CHR ''0''" using assms(1,2) by simp
  from strip_leading[OF ne this, of j]
  have "dropWhile (\<lambda>c. c = CHR ''0'') (replicate j CHR ''0'' @ t @ replicate k CHR ''0'')
      = t @ replicate k CHR ''0''" .
  with strip_trailing[OF assms(1,3), of k] show ?thesis by simp
qed

lemma filter_digits10: "filter (\<lambda>c. c \<in> set ''0123456789'') (digits10 n) = digits10 n"
  using digits10_digits[of n] by (simp only: filter_id_conv) blast

lemma filter_zeros:
  "filter (\<lambda>c. c \<in> set ''0123456789'') (replicate k CHR ''0'') = replicate k CHR ''0''"
  by (induction k) simp_all

lemma int_mod10:
  assumes "0 < d" and "d mod 10 \<noteq> 0" shows "nat d mod 10 \<noteq> 0"
proof
  assume "nat d mod 10 = 0"
  then have "int (nat d mod 10) = 0" by simp
  then have "int (nat d) mod 10 = 0" by (simp add: zmod_int)
  with assms show False by simp
qed

text \<open>The significant digits of the text of a decimal are its digits.\<close>

lemma significant_fmt_f:
  assumes "0 < d" and "d mod 10 \<noteq> 0"
  shows "significant (fmt_f (d, x)) = digits10 (nat d)"
proof -
  let ?ds = "digits10 (nat d)"
  let ?F = "filter (\<lambda>c. c \<in> set ''0123456789'')"
  have ne: "?ds \<noteq> []" by (rule digits10_nonempty)
  have h: "hd ?ds \<noteq> CHR ''0''" using assms(1) by (intro digits10_hd) simp
  have "nat d mod 10 < 10" by simp
  from digit_char_not_0[OF this int_mod10[OF assms]] have l: "last ?ds \<noteq> CHR ''0''"
    using digits10_last[of "nat d"] by simp
  have "\<exists>j k. ?F (fmt_f (d, x)) = replicate j CHR ''0'' @ ?ds @ replicate k CHR ''0''"
  proof (cases "0 \<le> x")
    case True
    then have "?F (fmt_f (d, x)) = ?F ?ds @ ?F (replicate (nat x) CHR ''0'')"
      by (simp add: fmt_f_def Let_def)
    then have "?F (fmt_f (d, x)) = replicate 0 CHR ''0'' @ ?ds @ replicate (nat x) CHR ''0''"
      unfolding filter_digits10 filter_zeros by simp
    then show ?thesis by blast
  next
    case False
    show ?thesis
    proof (cases "nat (- x) < length ?ds")
      case True
      with False have "?F (fmt_f (d, x))
          = ?F (take (length ?ds - nat (- x)) ?ds) @ ?F (drop (length ?ds - nat (- x)) ?ds)"
        by (simp add: fmt_f_def Let_def)
      also have "\<dots> = ?F (take (length ?ds - nat (- x)) ?ds @ drop (length ?ds - nat (- x)) ?ds)"
        by (simp only: filter_append)
      also have "\<dots> = ?ds" unfolding append_take_drop_id by (rule filter_digits10)
      finally have "?F (fmt_f (d, x)) = replicate 0 CHR ''0'' @ ?ds @ replicate 0 CHR ''0''" by simp
      then show ?thesis by blast
    next
      case nl: False
      with False have "?F (fmt_f (d, x))
          = CHR ''0'' # ?F (replicate (nat (- x) - length ?ds) CHR ''0'') @ ?F ?ds"
        by (simp add: fmt_f_def Let_def)
      then have "?F (fmt_f (d, x))
          = replicate (Suc (nat (- x) - length ?ds)) CHR ''0'' @ ?ds @ replicate 0 CHR ''0''"
        unfolding filter_digits10 filter_zeros by simp
      then show ?thesis by blast
    qed
  qed
  then obtain j k where "?F (fmt_f (d, x)) = replicate j CHR ''0'' @ ?ds @ replicate k CHR ''0''"
    by blast
  with trim_zeros[OF ne h l, of j k] show ?thesis unfolding significant_def Let_def by simp
qed

lemma significant_minus: "significant (CHR ''-'' # t) = significant t"
  by (simp add: significant_def)

lemma significant_FormatFloat:
  assumes "rnd64 False q = Fin False q" and "0 < q" and "shortest q = (d, x)"
  shows "significant (FormatFloat_f_shortest (Fin s q)) = digits10 (nat d)"
proof -
  from shortest_props[OF assms] have "significant (fmt_f (d, x)) = digits10 (nat d)"
    by (rule significant_fmt_f)
  with assms(2,3) show ?thesis by (cases s) (simp_all add: significant_minus)
qed

lemma fmt_f_plain:
  assumes "0 < d" and "d mod 10 \<noteq> 0" and "CHR ''.'' \<in> set (fmt_f (d, x))"
  shows "last (fmt_f (d, x)) \<in> set ''123456789''"
proof -
  let ?ds = "digits10 (nat d)"
  have l: "?ds \<noteq> []" "last ?ds = digit_char (nat d mod 10)"
    using digits10_last[of "nat d"] by simp_all
  have "nat d mod 10 < 10" by simp
  from digit_char_nonzero[OF this int_mod10[OF assms(1,2)]]
  have nz: "last ?ds \<in> set ''123456789''" unfolding l(2) .
  have np: "CHR ''.'' \<notin> set ?ds" by (rule digits10_no_point)
  show ?thesis
  proof (cases "0 \<le> x")
    case True
    with assms(3) np show ?thesis by (auto simp: fmt_f_def Let_def)
  next
    case False
    show ?thesis
    proof (cases "nat (- x) < length ?ds")
      case True
      have "0 < nat (- x)" using False by simp
      with True have "drop (length ?ds - nat (- x)) ?ds \<noteq> []" by simp
      moreover have "last (drop (length ?ds - nat (- x)) ?ds) = last ?ds"
        using True \<open>0 < nat (- x)\<close> by (simp add: last_drop)
      ultimately show ?thesis using False True nz
        by (simp add: fmt_f_def Let_def del: set_simps)
    next
      case nl: False
      with False l(1) nz show ?thesis
        by (simp add: fmt_f_def Let_def del: set_simps)
    qed
  qed
qed

text \<open>A text with a point ends with a digit that is not zero.\<close>

lemma FormatFloat_plain:
  assumes "is_float64 (Fin s q)" and "CHR ''.'' \<in> set (FormatFloat_f_shortest (Fin s q))"
  shows "last (FormatFloat_f_shortest (Fin s q)) \<in> set ''123456789''"
proof (cases "q = 0")
  case True
  with assms(2) show ?thesis by (cases s) simp_all
next
  case False
  with assms(1) have q: "0 < q" and fl: "rnd64 s q = Fin s q" by simp_all
  from rnd64_sign[OF fl] have fl': "rnd64 False q = Fin False q" .
  obtain d x where sh: "shortest q = (d, x)" by (cases "shortest q")
  from shortest_props[OF fl' q sh] have d: "0 < d" "d mod 10 \<noteq> 0" .
  from fmt_f_cons[of d x] have ne: "fmt_f (d, x) \<noteq> []" by auto
  from assms(2) False sh have "CHR ''.'' \<in> set (fmt_f (d, x))" by (auto split: if_splits)
  from fmt_f_plain[OF d this] ne False sh show ?thesis by (simp del: set_simps)
qed

text \<open>The text of a whole number has no point.\<close>

lemma FormatFloat_whole:
  assumes "is_float64 (Fin s (of_int k))"
  shows "CHR ''.'' \<notin> set (FormatFloat_f_shortest (Fin s (of_int k)))"
proof (cases "k = 0")
  case True
  then show ?thesis by (cases s) simp_all
next
  case False
  with assms have q: "0 < (of_int k :: rat)" and fl: "rnd64 s (of_int k) = Fin s (of_int k)"
    by simp_all
  from rnd64_sign[OF fl] have fl': "rnd64 False (of_int k) = Fin False (of_int k)" .
  obtain d x where sh: "shortest (of_int k) = (d, x)" by (cases "shortest (of_int k :: rat)")
  from shortest_whole[OF fl' q sh refl] have x: "0 \<le> x" .
  have "CHR ''.'' \<notin> set (fmt_f (d, x))"
    using x digits10_no_point[of "nat d"] by (simp add: fmt_f_def Let_def)
  with q sh show ?thesis by (cases s) simp_all
qed

subsection \<open>Values of the rounding\<close>

text \<open>What \<open>rnd64\<close> returns is a binary64 value: rounding it again changes nothing.\<close>

lemma rnd64_idem:
  assumes "0 \<le> q" and "rnd64 s q = Fin s r"
  shows "0 \<le> r \<and> rnd64 s r = Fin s r"
proof (cases "q = 0")
  case True
  with assms(2) show ?thesis by simp
next
  case False
  with assms(1) have q: "0 < q" by simp
  define u where "u = max (ilog 2 q - 52) (- 1074)"
  define m where "m = round_half_even (q / ipow 2 u)"
  define t where "t = max (ilog 2 q + 1) u"
  have p: "0 < ipow 2 u" by (intro ipow_pos) simp
  from assms(2) False have r: "rounded q = r" and nov: "\<not> ipow 2 1024 \<le> rounded q"
    by (auto simp: rnd64_rounded split: if_splits)
  have rm: "r = of_int m * ipow 2 u"
    using r unfolding rounded_def Let_def u_def[symmetric] m_def[symmetric] by simp
  have "(of_int 0 :: rat) \<le> q / ipow 2 u" using q p by simp
  then have m0: "0 \<le> m" unfolding m_def by (rule round_half_even_ge_int)
  have tu: "u \<le> t" "t - u \<le> 53" "ilog 2 q + 1 \<le> t" unfolding t_def u_def by simp_all
  have "rounded q \<le> ipow 2 t" by (rule rounded_upper[OF q u_def tu(3) tu(1)])
  also have "ipow 2 t = ipow 2 ((t - u) + u)" by simp
  also have "\<dots> = ipow 2 (t - u) * ipow 2 u" by (rule ipow_plus) simp
  also have "ipow 2 (t - u) = of_int (2 ^ nat (t - u))" using tu(1) by (simp add: ipow_of_int)
  finally have "of_int m * ipow 2 u \<le> of_int (2 ^ nat (t - u)) * ipow 2 u" unfolding r rm .
  then have "(of_int m :: rat) \<le> of_int (2 ^ nat (t - u))"
    using p by (simp only: mult_le_cancel_right_pos)
  then have "m \<le> 2 ^ nat (t - u)" by (simp only: of_int_le_iff)
  also have "(2::int) ^ nat (t - u) \<le> 2 ^ 53" using tu(2) by (intro power_increasing) simp_all
  finally have m53: "m \<le> 2 ^ 53" .
  have u971: "u \<le> 971"
  proof (rule ccontr)
    assume "\<not> u \<le> 971"
    then have big: "972 \<le> u" by simp
    then have ue: "u = ilog 2 q - 52" unfolding u_def by linarith
    have "ipow 2 1024 \<le> ipow 2 (ilog 2 q)" using big ue by (intro ipow_mono) simp_all
    also have "\<dots> \<le> rounded q" by (rule rounded_lower[OF q u_def]) (simp_all add: ue)
    finally show False using nov by simp
  qed
  have ulow: "- 1074 \<le> u" unfolding u_def by simp
  have r0: "0 \<le> r" unfolding rm using m0 p by simp
  consider "m = 0" | "0 < m" "m < 2 ^ 53" | "m = 2 ^ 53" using m0 m53 by linarith
  then have "rnd64 s r = Fin s r"
  proof cases
    case 1
    then show ?thesis unfolding rm by simp
  next
    case 2
    from rnd64_exact[OF 2 ulow u971] show ?thesis unfolding rm .
  next
    case 3
    have "ipow 2 (u + 1) = of_nat 2 * ipow 2 u" by (rule ipow_Suc) simp
    then have e: "r = of_int (2 ^ 52) * ipow 2 (u + 1)" unfolding rm 3 by simp
    have "ipow 2 53 * ipow 2 u = ipow 2 (53 + u)" by (rule ipow_plus[symmetric]) simp
    moreover have "ipow 2 53 = of_int (2 ^ 53)" by (simp add: ipow_def)
    ultimately have "r = ipow 2 (53 + u)" unfolding rm 3 by simp
    with nov r have "ipow 2 (53 + u) < ipow 2 1024" by simp
    then have "53 + u < 1024" by (rule ipow_less_cancel[rotated]) simp
    then have "u + 1 \<le> 971" by simp
    moreover have "- 1074 \<le> u + 1" using ulow by simp
    moreover have "(0::int) < 2 ^ 52" "(2::int) ^ 52 < 2 ^ 53" by simp_all
    ultimately show ?thesis unfolding e by (intro rnd64_exact)
  qed
  with r0 show ?thesis ..
qed

lemma rnd64_is_float64: "0 \<le> q \<Longrightarrow> is_float64 (rnd64 s q)"
proof (cases "rnd64 s q")
  case NaN
  then show ?thesis by simp
next
  case (Inf x2)
  then show ?thesis by simp
next
  case (Fin s' r)
  assume q: "0 \<le> q"
  from Fin have "s' = s" by (auto simp: rnd64_def Let_def split: if_splits)
  with Fin rnd64_idem[OF q, of s r] show ?thesis by simp
qed

text \<open>The operations of the program return binary64 values.\<close>

lemma is_float64_zero [simp]: "is_float64 (Fin s 0)"
  by simp

lemma is_float64_f64: "is_float64 (f64 n)"
  unfolding f64_def by (rule rnd64_is_float64) simp

lemma is_float64_nonneg: "is_float64 (Fin s q) \<Longrightarrow> 0 \<le> q"
  by simp

lemma fdiv_is_float64:
  assumes "is_float64 a" and "is_float64 b"
  shows "is_float64 (fdiv a b)"
proof (cases a)
  case NaN
  then show ?thesis by simp
next
  case (Inf s)
  then show ?thesis by (cases b) simp_all
next
  case (Fin s p)
  show ?thesis
  proof (cases b)
    case NaN
    then show ?thesis unfolding Fin by simp
  next
    case (Inf t)
    then show ?thesis unfolding Fin by simp
  next
    case b: (Fin t q)
    from assms Fin b have "0 \<le> p / q" by simp
    from rnd64_is_float64[OF this, of "s \<noteq> t"] show ?thesis unfolding Fin b by simp
  qed
qed

lemma fmul_is_float64:
  assumes "is_float64 a" and "is_float64 b"
  shows "is_float64 (fmul a b)"
proof (cases a)
  case NaN
  then show ?thesis by simp
next
  case (Inf s)
  then show ?thesis by (cases b) simp_all
next
  case (Fin s p)
  show ?thesis
  proof (cases b)
    case NaN
    then show ?thesis unfolding Fin by simp
  next
    case (Inf t)
    then show ?thesis unfolding Fin by simp
  next
    case b: (Fin t q)
    from assms Fin b have "0 \<le> p * q" by simp
    from rnd64_is_float64[OF this, of "s \<noteq> t"] show ?thesis unfolding Fin b by simp
  qed
qed

lemma fneg_is_float64:
  assumes "is_float64 a" shows "is_float64 (fneg a)"
proof (cases a)
  case (Fin s q)
  with assms have "0 \<le> q" "rnd64 s q = Fin s q" by simp_all
  with rnd64_sign[of s q q "\<not> s"] show ?thesis unfolding Fin by simp
qed simp_all

lemma fadd_is_float64: "is_float64 (fadd a b)"
proof (cases a)
  case NaN
  then show ?thesis by simp
next
  case (Inf s)
  then show ?thesis by (cases b) simp_all
next
  case (Fin s p)
  show ?thesis
  proof (cases b)
    case NaN
    then show ?thesis unfolding Fin by simp
  next
    case (Inf t)
    then show ?thesis unfolding Fin by simp
  next
    case b: (Fin t q)
    have "0 \<le> \<bar>signed s p + signed t q\<bar>" by simp
    from rnd64_is_float64[OF this, of "signed s p + signed t q < 0"]
    show ?thesis unfolding Fin b by (simp add: Let_def)
  qed
qed

lemma fsub_is_float64: "is_float64 (fsub a b)"
  unfolding fsub_def by (rule fadd_is_float64)

lemma round2_is_float64:
  assumes "is_float64 a"
  shows "is_float64 (fdiv (math_Round a) (f64 100))"
proof (cases a)
  case NaN
  then show ?thesis by simp
next
  case (Inf s)
  then show ?thesis by (simp add: f64_numeral)
next
  case (Fin s q)
  with assms have "0 \<le> q" by simp
  then have "(0::rat) \<le> of_int \<lfloor>q + 1 / 2\<rfloor> / 100" by simp
  from rnd64_is_float64[OF this, of "s"] show ?thesis unfolding Fin by (simp add: f64_numeral)
qed

lemma parseFloat_is_float64:
  assumes "\<forall>t v. PF t = Inr v \<longrightarrow> is_float64 v"
  shows "is_float64 (fst (parseFloat PF t))"
  using assms is_float64_f64[of 0] by (auto simp: parseFloat_def split: sum.splits)

lemma Compute_is_float64:
  assumes "\<forall>t v. PF t = Inr v \<longrightarrow> is_float64 v"
  shows "is_float64 (LoadWatts (Compute PF vs))"
    and "is_float64 (BatteryRuntimeMins (Compute PF vs))"
    and "is_float64 (BatteryRuntimeHours (Compute PF vs))"
    and "is_float64 (InputVoltageDeviationPct (Compute PF vs))"
proof -
  note p = parseFloat_is_float64[OF assms]
  note c = is_float64_f64
  have "is_float64 (computeLoadWatts PF vs)"
    unfolding computeLoadWatts_def
    using p[of "lookup vs ''ups.load''"] p[of "lookup vs ''ups.realpower.nominal''"]
    by (auto split: prod.splits intro!: round2_is_float64 fmul_is_float64 fdiv_is_float64 c)
  then show "is_float64 (LoadWatts (Compute PF vs))" by (simp add: Compute_def)
  have "is_float64 (computeBatteryRuntimeMins PF vs)"
    unfolding computeBatteryRuntimeMins_def
    using p[of "lookup vs ''battery.runtime''"]
    by (auto split: prod.splits intro!: round2_is_float64 fmul_is_float64 fdiv_is_float64 c)
  then show "is_float64 (BatteryRuntimeMins (Compute PF vs))" by (simp add: Compute_def)
  have "is_float64 (computeBatteryRuntimeHours PF vs)"
    unfolding computeBatteryRuntimeHours_def
    using p[of "lookup vs ''battery.runtime''"]
    by (auto split: prod.splits intro!: round2_is_float64 fmul_is_float64 fdiv_is_float64 c)
  then show "is_float64 (BatteryRuntimeHours (Compute PF vs))" by (simp add: Compute_def)
  have "is_float64 (computeInputVoltageDeviationPct PF vs)"
    unfolding computeInputVoltageDeviationPct_def
    using p[of "lookup vs ''input.voltage''"] p[of "lookup vs ''input.voltage.nominal''"]
    by (auto split: prod.splits
        intro!: round2_is_float64 fmul_is_float64 fdiv_is_float64 fsub_is_float64 c)
  then show "is_float64 (InputVoltageDeviationPct (Compute PF vs))" by (simp add: Compute_def)
qed

subsection \<open>The value 1.5\<close>

lemma float64_3_2: "rnd64 s (3 / 2) = Fin s (3 / 2)"
  using rnd64_exact[of 3 "- 1" s] by (simp add: ipow_def)

lemma ilog10_3_2: "ilog 10 (3 / 2) = 0"
  by (rule ilog_eqI) (simp_all add: ipow_def)

lemma rnd64_8_5: "rnd64 False (8 / 5) \<noteq> Fin False (3 / 2)"
proof
  assume a: "rnd64 False (8 / 5) = Fin False (3 / 2)"
  then have 1: "rounded (8 / 5) = 3 / 2" by (auto simp: rnd64_rounded split: if_splits)
  have "rnd64 False (25 / 16) = Fin False (25 / 16)"
    using rnd64_exact[of 25 "- 4" False] by (simp add: ipow_def)
  then have 2: "rounded (25 / 16) = 25 / 16" by (auto simp: rnd64_rounded split: if_splits)
  have "rounded (25 / 16) \<le> rounded (8 / 5)" by (rule rounded_mono) simp_all
  with 1 2 show False by simp
qed

lemma try1_3_2: "shortest_try (3 / 2) 1 = None"
  by (simp add: shortest_try_def ilog10_3_2 Let_def floor_numeral_div rnd64_numeral rnd64_one)

lemma try2_3_2: "shortest_try (3 / 2) 2 = Some (15, - 1)"
proof -
  have x: "ilog 10 (3 / 2) - int 2 + 1 = - 1" by (simp add: ilog10_3_2)
  have i: "ipow 10 (- 1) = 1 / 10" by (simp add: ipow_def)
  have f: "\<lfloor>3 / 2 / (1 / 10 :: rat)\<rfloor> = 15" by simp
  have lo: "rnd64 False (of_int 15 * (1 / 10)) = Fin False (3 / 2)"
    using float64_3_2[of False] by simp
  have hi: "rnd64 False (of_int (15 + 1) * (1 / 10)) \<noteq> Fin False (3 / 2)"
    using rnd64_8_5 by simp
  show ?thesis unfolding shortest_try_def Let_def x i f using lo hi by simp
qed

lemma shortest_3_2: "shortest (3 / 2) = (15, - 1)"
proof -
  have "shortest_from (3 / 2) 1 (nat (ilog 10 (3 / 2) + 1075)) = shortest_from (3 / 2) 1 (Suc 1074)"
    by (simp add: ilog10_3_2)
  also have "\<dots> = shortest_from (3 / 2) (Suc 1) 1074" by (rule shortest_from_skip[OF try1_3_2])
  also have "\<dots> = shortest_from (3 / 2) 2 (Suc 1073)" by (simp add: numeral_2_eq_2)
  also have "\<dots> = (15, - 1)" by (rule shortest_from_found[OF try2_3_2])
  finally show ?thesis by (simp add: shortest_def strip_zeros.simps)
qed

lemma FormatFloat_3_2: "FormatFloat_f_shortest (Fin False (3 / 2)) = ''1.5''"
  by (simp add: shortest_3_2 fmt_f_def digits10.simps digit_char_def)

text \<open>
  Claim C9. For every \<open>Metrics\<close> value, \<open>AsTopicMap\<close> has exactly seven entries, under
  the canonical names; the two booleans are written \<open>true\<close> or \<open>false\<close>; the four floats
  are written by \<open>strconv.FormatFloat(v, 'f', -1, 64)\<close>, and 72.0 is written \<open>72\<close>. For every
  binary64 value \<open>v\<close>: the text reads back as \<open>v\<close>; no decimal that rounds to \<open>v\<close> has fewer
  digits than the text has significant digits; a text with a point ends with a digit that
  is not zero; the text of a whole number has no point. Every result of the rounding is a
  binary64 value, and so are the four floats that \<open>Compute\<close> returns when \<open>ParseFloat\<close>
  returns binary64 values. The zeros are written \<open>0\<close> and \<open>-0\<close>, and the values that are not
  finite \<open>NaN\<close>, \<open>+Inf\<close> and \<open>-Inf\<close>.
\<close>

theorem AsTopicMap_projection:
  "dom (AsTopicMap m) = set canonical_names \<and> card (dom (AsTopicMap m)) = 7
   \<and> AsTopicMap m ''on_battery'' = Some (if OnBattery m then ''true'' else ''false'')
   \<and> AsTopicMap m ''low_battery'' = Some (if LowBattery m then ''true'' else ''false'')
   \<and> AsTopicMap m ''status_display'' = Some (StatusDisplay m)
   \<and> AsTopicMap m ''load_watts'' = Some (FormatFloat_f_shortest (LoadWatts m))
   \<and> AsTopicMap m ''battery_runtime_mins'' = Some (FormatFloat_f_shortest (BatteryRuntimeMins m))
   \<and> AsTopicMap m ''battery_runtime_hours''
       = Some (FormatFloat_f_shortest (BatteryRuntimeHours m))
   \<and> AsTopicMap m ''input_voltage_deviation_pct''
       = Some (FormatFloat_f_shortest (InputVoltageDeviationPct m))
   \<and> FormatFloat_f_shortest (f64 72) = ''72''
   \<and> (is_float64 v \<longrightarrow> read_back (FormatFloat_f_shortest v) = Some v)
   \<and> (is_float64 (Fin s q) \<and> 0 < d \<and> rnd64 s (of_int d * ipow 10 x) = Fin s q \<longrightarrow>
         length (significant (FormatFloat_f_shortest (Fin s q))) \<le> length (digits10 (nat d)))
   \<and> (is_float64 (Fin s q) \<and> CHR ''.'' \<in> set (FormatFloat_f_shortest (Fin s q)) \<longrightarrow>
         last (FormatFloat_f_shortest (Fin s q)) \<in> set ''123456789'')
   \<and> (is_float64 (Fin s (of_int k)) \<longrightarrow>
         CHR ''.'' \<notin> set (FormatFloat_f_shortest (Fin s (of_int k))))
   \<and> (0 \<le> q \<longrightarrow> is_float64 (rnd64 s q))
   \<and> ((\<forall>t w. PF t = Inr w \<longrightarrow> is_float64 w) \<longrightarrow>
         is_float64 (LoadWatts (Compute PF vs))
         \<and> is_float64 (BatteryRuntimeMins (Compute PF vs))
         \<and> is_float64 (BatteryRuntimeHours (Compute PF vs))
         \<and> is_float64 (InputVoltageDeviationPct (Compute PF vs)))
   \<and> FormatFloat_f_shortest (Fin False 0) = ''0''
   \<and> FormatFloat_f_shortest (Fin True 0) = ''-0''
   \<and> FormatFloat_f_shortest NaN = ''NaN''
   \<and> FormatFloat_f_shortest (Inf False) = ''+Inf''
   \<and> FormatFloat_f_shortest (Inf True) = ''-Inf''"
proof (intro conjI impI)
  show dm: "dom (AsTopicMap m) = set canonical_names"
    by (auto simp: canonical_names_def AsTopicMap_def)
  have "distinct canonical_names" "length canonical_names = 7"
    by (simp_all add: canonical_names_def)
  then show "card (dom (AsTopicMap m)) = 7"
    unfolding dm by (simp add: distinct_card)
  show "FormatFloat_f_shortest (f64 72) = ''72''" by (rule FormatFloat_72)
  show "read_back (FormatFloat_f_shortest v) = Some v" if "is_float64 v"
    by (rule read_back_FormatFloat[OF that])
  show "length (significant (FormatFloat_f_shortest (Fin s q))) \<le> length (digits10 (nat d))"
    if h: "is_float64 (Fin s q) \<and> 0 < d \<and> rnd64 s (of_int d * ipow 10 x) = Fin s q"
  proof (cases "q = 0")
    case True
    then show ?thesis by (cases s) (simp_all add: significant_def)
  next
    case False
    with h have q: "0 < q" and fl: "rnd64 s q = Fin s q" by simp_all
    from rnd64_sign[OF fl] have fl': "rnd64 False q = Fin False q" .
    from h have "rnd64 s (of_int d * ipow 10 x) = Fin s q" by simp
    from rnd64_sign[OF this] have r: "rnd64 False (of_int d * ipow 10 x) = Fin False q" .
    from h have d: "0 < d" by simp
    obtain d0 x0 where sh: "shortest q = (d0, x0)" by (cases "shortest q")
    from shortest_fewest[OF fl' q sh d r] significant_FormatFloat[OF fl' q sh, of s]
    show ?thesis by simp
  qed
  show "last (FormatFloat_f_shortest (Fin s q)) \<in> set ''123456789''"
    if "is_float64 (Fin s q) \<and> CHR ''.'' \<in> set (FormatFloat_f_shortest (Fin s q))"
    using FormatFloat_plain[of s q] that by blast
  show "CHR ''.'' \<notin> set (FormatFloat_f_shortest (Fin s (of_int k)))"
    if "is_float64 (Fin s (of_int k))"
    by (rule FormatFloat_whole[OF that])
  show "is_float64 (rnd64 s q)" if "0 \<le> q"
    by (rule rnd64_is_float64[OF that])
  show "is_float64 (LoadWatts (Compute PF vs))"
    if "\<forall>t w. PF t = Inr w \<longrightarrow> is_float64 w"
    by (rule Compute_is_float64(1)[OF that])
  show "is_float64 (BatteryRuntimeMins (Compute PF vs))"
    if "\<forall>t w. PF t = Inr w \<longrightarrow> is_float64 w"
    by (rule Compute_is_float64(2)[OF that])
  show "is_float64 (BatteryRuntimeHours (Compute PF vs))"
    if "\<forall>t w. PF t = Inr w \<longrightarrow> is_float64 w"
    by (rule Compute_is_float64(3)[OF that])
  show "is_float64 (InputVoltageDeviationPct (Compute PF vs))"
    if "\<forall>t w. PF t = Inr w \<longrightarrow> is_float64 w"
    by (rule Compute_is_float64(4)[OF that])
qed (simp_all add: AsTopicMap_def formatFloat_def FormatBool_def)

theorem AsTopicMap_projection_witness:
  "is_float64 (Fin False (3 / 2))
   \<and> FormatFloat_f_shortest (Fin False (3 / 2)) = ''1.5''
   \<and> read_back ''1.5'' = Some (Fin False (3 / 2))
   \<and> rnd64 False (of_int 150 * ipow 10 (- 2)) = Fin False (3 / 2)
   \<and> length (significant ''1.5'') \<le> length (digits10 (nat 150))
   \<and> CHR ''.'' \<in> set ''1.5''
   \<and> last ''1.5'' \<in> set ''123456789''
   \<and> is_float64 (Fin False (of_int 72))
   \<and> CHR ''.'' \<notin> set (FormatFloat_f_shortest (Fin False (of_int 72)))
   \<and> is_float64 (rnd64 False (3 / 2))
   \<and> is_float64 (LoadWatts (Compute sample_ParseFloat Map.empty))"
proof -
  note T = AsTopicMap_projection[where v = "Fin False (3 / 2)" and s = False and q = "3 / 2"
      and d = 150 and x = "- 2" and k = 72 and PF = sample_ParseFloat and vs = Map.empty]
  have fl: "is_float64 (Fin False (3 / 2))" by (simp add: float64_3_2)
  have tx: "FormatFloat_f_shortest (Fin False (3 / 2)) = ''1.5''" by (rule FormatFloat_3_2)
  have d: "(0::int) < 150" by simp
  have rd: "rnd64 False (of_int 150 * ipow 10 (- 2)) = Fin False (3 / 2)"
    by (simp add: ipow_def float64_3_2)
  have pt: "CHR ''.'' \<in> set ''1.5''" by simp
  have f72: "is_float64 (Fin False (of_int 72))" by (simp add: rnd64_numeral)
  have q: "(0::rat) \<le> 3 / 2" by simp
  from T fl have "read_back (FormatFloat_f_shortest (Fin False (3 / 2))) = Some (Fin False (3 / 2))"
    by blast
  then have a: "read_back ''1.5'' = Some (Fin False (3 / 2))" unfolding tx .
  from T fl d rd
  have "length (significant (FormatFloat_f_shortest (Fin False (3 / 2))))
      \<le> length (digits10 (nat 150))" by blast
  then have b: "length (significant ''1.5'') \<le> length (digits10 (nat 150))" unfolding tx .
  from T fl pt[folded tx]
  have "last (FormatFloat_f_shortest (Fin False (3 / 2))) \<in> set ''123456789''" by blast
  then have c: "last ''1.5'' \<in> set ''123456789''" unfolding tx .
  from T f72 have e: "CHR ''.'' \<notin> set (FormatFloat_f_shortest (Fin False (of_int 72)))" by blast
  from T q have f: "is_float64 (rnd64 False (3 / 2))" by blast
  have pf: "\<forall>t w. sample_ParseFloat t = Inr w \<longrightarrow> is_float64 w"
    by (auto simp: sample_ParseFloat_def is_float64_f64)
  from T pf have g: "is_float64 (LoadWatts (Compute sample_ParseFloat Map.empty))" by blast
  from fl tx a rd b pt c f72 e f g show ?thesis by blast
qed

end
